theory Spec2Isabelle
  imports Main "HOL-Library.Multiset"
begin

section \<open>The debugger bridge: pending requests over a webview channel\<close>

text \<open>
  The source is the class \<open>Bridge\<close> in
  \<^verbatim>\<open>src/pkg/nuclide-debugger/lib/DebuggerSteppingComponent.js\<close> (lines 227 to 652); line
  numbers below are those of that file.
  The class \<open>Bridge\<close> sends commands to a webview and receives the answers as
  \<open>ipc-message\<close> events. Two JavaScript \<open>Map\<close>s, \<open>_expressionsInFlight\<close> and
  \<open>_getPropertiesRequestsInFlight\<close>, hold one \<open>Deferred\<close> per request that has been sent
  and not yet answered. \<open>_cachedSendCommand\<close> is an async function: it runs up to
  \<open>yield deferred.promise\<close>, and its remainder runs as a promise reaction job once the
  deferred is settled by \<open>_handleResponseForPendingRequest\<close>.

  The embedding keeps the heap explicit: promises live at addresses, a suspended
  generator is a frame registered on the promise it awaits, and the job queue of the
  JavaScript run time is a list that is emptied at the end of every task.
\<close>

subsection \<open>Values\<close>

datatype jsval =
    JUndefined
  | JNull
  | JBool bool
  | JNum int
  | JStr string
  | JObj "(string \<times> jsval) list"

text \<open>The test \<open>v == null\<close> of JavaScript holds of \<open>null\<close> and of \<open>undefined\<close>.\<close>

definition is_nullish :: "jsval \<Rightarrow> bool" where
  "is_nullish v = (v = JNull \<or> v = JUndefined)"

text \<open>A settled promise is fulfilled with a value or rejected with a reason; a promise
  cell holds \<open>None\<close> while it is pending.\<close>

datatype completion = Fulfilled jsval | Rejected jsval

type_synonym promise_cell = "completion option"

text \<open>The error thrown by \<open>assert\<close> of Node.\<close>

definition AssertionError :: jsval where
  "AssertionError = JObj [(''name'', JStr ''AssertionError'')]"

subsection \<open>The state of a bridge\<close>

text \<open>The two tables are fields of the bridge; a table is passed to
  \<open>_cachedSendCommand\<close> and \<open>_handleResponseForPendingRequest\<close> by reference.\<close>

datatype cache_ref = ExpressionsInFlight | GetPropertiesRequestsInFlight

text \<open>
  The frame of \<open>_cachedSendCommand\<close> suspended at \<open>yield deferred.promise\<close>: the live
  variables \<open>cache\<close>, \<open>command\<close>, \<open>value\<close>, and the promise that the call returned to
  its caller.
\<close>

datatype send_frame =
  SendFrame (sf_cache: cache_ref) (sf_command: string) (sf_value: string) (sf_promise: nat)

text \<open>
  The frame of \<open>_evaluateOnSelectedCallFrame\<close> or of \<open>_runtimeEvaluate\<close> suspended at
  \<open>yield this._cachedSendCommand(...)\<close>: the live variable \<open>expression\<close> and the promise
  that the call returned. The two functions have the same code after the \<open>yield\<close>.
\<close>

datatype eval_frame =
  EvalFrame (ef_expression: string) (ef_promise: nat)

text \<open>A promise reaction job: a frame and the completion it is resumed with.\<close>

datatype microtask =
    SendTask send_frame completion
  | EvalTask eval_frame completion

text \<open>Calls into the debugger model, which is outside this file: \<open>setDebuggerMode\<close>
  with a constant of \<open>DebuggerMode\<close>, and \<open>clearInterface\<close>.\<close>

datatype debugger_mode = PAUSED | RUNNING

datatype model_action = SetDebuggerMode debugger_mode | ClearInterface

record bridge =
  webview :: "nat option"
  sent :: "(nat \<times> jsval list) list"
  expressionsInFlight :: "string \<rightharpoonup> nat"
  getPropertiesRequestsInFlight :: "string \<rightharpoonup> nat"
  deferreds :: "promise_cell list"
  promises :: "promise_cell list"
  awaiting_deferred :: "(nat \<times> send_frame) list"
  awaiting_promise :: "(nat \<times> eval_frame) list"
  microtasks :: "microtask list"
  warnings :: "(string \<times> jsval) list"
  actions :: "model_action list"
  timeouts :: "model_action list"

text \<open>
  \<^item> \<open>webview\<close>: the field \<open>_webview\<close>, \<open>None\<close> for \<open>null\<close>, otherwise the identity of the
    webview element;
  \<^item> \<open>sent\<close>: every call \<open>webview.send(...)\<close> so far, with the webview it was made on;
  \<^item> \<open>deferreds\<close>: the promise of every \<open>Deferred\<close> created so far, by address;
  \<^item> \<open>promises\<close>: the promise returned by every call of an async function so far;
  \<^item> \<open>awaiting_deferred\<close>, \<open>awaiting_promise\<close>: the reactions registered on pending
    promises, oldest first;
  \<^item> \<open>microtasks\<close>: the job queue;
  \<^item> \<open>warnings\<close>: the calls of \<open>getLogger().warn\<close>;
  \<^item> \<open>actions\<close>: the calls made on the debugger model's actions;
  \<^item> \<open>timeouts\<close>: the callbacks handed to \<open>setTimeout\<close>.
\<close>

text \<open>The constructor (lines 228 to 238): no webview, two empty tables.\<close>

definition Bridge :: bridge where
  "Bridge = \<lparr> webview = None, sent = [],
     expressionsInFlight = Map.empty, getPropertiesRequestsInFlight = Map.empty,
     deferreds = [], promises = [], awaiting_deferred = [], awaiting_promise = [],
     microtasks = [], warnings = [], actions = [], timeouts = [] \<rparr>"

definition cache_of :: "bridge \<Rightarrow> cache_ref \<Rightarrow> (string \<rightharpoonup> nat)" where
  "cache_of s c = (case c of
       ExpressionsInFlight \<Rightarrow> expressionsInFlight s
     | GetPropertiesRequestsInFlight \<Rightarrow> getPropertiesRequestsInFlight s)"

definition cache_update :: "cache_ref \<Rightarrow> ((string \<rightharpoonup> nat) \<Rightarrow> (string \<rightharpoonup> nat)) \<Rightarrow> bridge \<Rightarrow> bridge" where
  "cache_update c f s = (case c of
       ExpressionsInFlight \<Rightarrow> s\<lparr>expressionsInFlight := f (expressionsInFlight s)\<rparr>
     | GetPropertiesRequestsInFlight \<Rightarrow>
         s\<lparr>getPropertiesRequestsInFlight := f (getPropertiesRequestsInFlight s)\<rparr>)"

text \<open>\<open>Map.prototype.get\<close> with any value as the key: the keys of the tables are
  strings, so any other value finds nothing.\<close>

definition map_get :: "(string \<rightharpoonup> nat) \<Rightarrow> jsval \<Rightarrow> nat option" where
  "map_get m key = (case key of JStr k \<Rightarrow> m k | _ \<Rightarrow> None)"

text \<open>Reading a promise cell; an address that was never allocated reads as pending.\<close>

definition cell_at :: "promise_cell list \<Rightarrow> nat \<Rightarrow> promise_cell" where
  "cell_at cells a = (if a < length cells then cells ! a else None)"

subsection \<open>Promises and deferreds\<close>

text \<open>
  Modelled from the spec: the class \<open>Deferred\<close> of \<open>commons-node/promise\<close>, which is not
  among the sources. The spec calls it a waiter: an unsettled result placeholder
  exposing resolve and reject and an awaitable outcome, settled at most once. A new
  deferred is pending; \<open>resolve\<close> and \<open>reject\<close> settle it when it is pending and do
  nothing otherwise; settling queues a job for every reaction registered on it, in the
  order of registration.
\<close>

definition new_Deferred :: "bridge \<Rightarrow> nat \<times> bridge" where
  "new_Deferred s = (length (deferreds s), s\<lparr>deferreds := deferreds s @ [None]\<rparr>)"

definition settle_deferred :: "nat \<Rightarrow> completion \<Rightarrow> bridge \<Rightarrow> bridge" where
  "settle_deferred d out s =
     (if d < length (deferreds s) \<and> deferreds s ! d = None
      then s\<lparr>deferreds := (deferreds s)[d := Some out],
             microtasks := microtasks s @
               map (\<lambda>w. SendTask (snd w) out) (filter (\<lambda>w. fst w = d) (awaiting_deferred s)),
             awaiting_deferred := filter (\<lambda>w. fst w \<noteq> d) (awaiting_deferred s)\<rparr>
      else s)"

definition Deferred_resolve :: "nat \<Rightarrow> jsval \<Rightarrow> bridge \<Rightarrow> bridge" where
  "Deferred_resolve d v s = settle_deferred d (Fulfilled v) s"

definition Deferred_reject :: "nat \<Rightarrow> jsval \<Rightarrow> bridge \<Rightarrow> bridge" where
  "Deferred_reject d e s = settle_deferred d (Rejected e) s"

text \<open>
  \<open>_asyncToGenerator\<close> wraps a generator in \<open>new Promise(...)\<close> and runs it inside the
  executor up to its first \<open>yield\<close>, \<open>return\<close> or \<open>throw\<close>. A body that returns or throws
  before it yields gives a promise that is settled when the caller receives it; a body
  that yields gives a pending promise, settled by the frame when it is resumed.
\<close>

definition new_promise :: "promise_cell \<Rightarrow> bridge \<Rightarrow> nat \<times> bridge" where
  "new_promise cell s = (length (promises s), s\<lparr>promises := promises s @ [cell]\<rparr>)"

definition settle_promise :: "nat \<Rightarrow> completion \<Rightarrow> bridge \<Rightarrow> bridge" where
  "settle_promise p out s =
     (if p < length (promises s) \<and> promises s ! p = None
      then s\<lparr>promises := (promises s)[p := Some out],
             microtasks := microtasks s @
               map (\<lambda>w. EvalTask (snd w) out) (filter (\<lambda>w. fst w = p) (awaiting_promise s)),
             awaiting_promise := filter (\<lambda>w. fst w \<noteq> p) (awaiting_promise s)\<rparr>
      else s)"

text \<open>
  \<open>Promise.resolve(value).then(callNext, callThrow)\<close> in \<open>step\<close> of \<open>_asyncToGenerator\<close>:
  on a pending promise the frame is registered, on a settled one its job is queued at once.
\<close>

definition then_deferred :: "nat \<Rightarrow> send_frame \<Rightarrow> bridge \<Rightarrow> bridge" where
  "then_deferred d f s = (case cell_at (deferreds s) d of
       None \<Rightarrow> s\<lparr>awaiting_deferred := awaiting_deferred s @ [(d, f)]\<rparr>
     | Some out \<Rightarrow> s\<lparr>microtasks := microtasks s @ [SendTask f out]\<rparr>)"

definition then_promise :: "nat \<Rightarrow> eval_frame \<Rightarrow> bridge \<Rightarrow> bridge" where
  "then_promise p f s = (case cell_at (promises s) p of
       None \<Rightarrow> s\<lparr>awaiting_promise := awaiting_promise s @ [(p, f)]\<rparr>
     | Some out \<Rightarrow> s\<lparr>microtasks := microtasks s @ [EvalTask f out]\<rparr>)"

subsection \<open>The methods of the bridge\<close>

text \<open>\<open>setWebviewElement\<close> (lines 241 to 249) stores the webview; the listener it registers
  is the handler of \<open>on_ipc_message\<close> below.\<close>

definition setWebviewElement :: "nat \<Rightarrow> bridge \<Rightarrow> bridge" where
  "setWebviewElement w s = s\<lparr>webview := Some w\<rparr>"

text \<open>
  \<open>cleanup\<close> (lines 259 to 271) disposes the listeners (they belong to the host and are not part of the
  state here), clears \<open>_webview\<close> and hands \<open>clearInterface\<close> to \<open>setTimeout\<close>.
\<close>

definition cleanup :: "bridge \<Rightarrow> bridge" where
  "cleanup s = s\<lparr>webview := None, timeouts := timeouts s @ [ClearInterface]\<rparr>"

text \<open>\<open>webview.send\<close> and \<open>getLogger().warn\<close> belong to the host; they are taken to
  return normally, as a sink that acknowledges nothing.\<close>

definition webview_send :: "nat \<Rightarrow> jsval list \<Rightarrow> bridge \<Rightarrow> bridge" where
  "webview_send w msg s = s\<lparr>sent := sent s @ [(w, msg)]\<rparr>"

definition logger_warn :: "string \<Rightarrow> jsval \<Rightarrow> bridge \<Rightarrow> bridge" where
  "logger_warn msg e s = s\<lparr>warnings := warnings s @ [(msg, e)]\<rparr>"

text \<open>
  \<open>_cachedSendCommand(cache, command, ...args)\<close> (lines 383 to 414) up to its first
  suspension at line 407: the test of \<open>_webview\<close>, the \<open>assert\<close> that \<open>args[0]\<close> is a
  string, and the lookup that finds the deferred or creates, stores and sends. The result
  is the promise returned to the caller and the new state.
\<close>

definition cachedSendCommand :: "cache_ref \<Rightarrow> string \<Rightarrow> jsval list \<Rightarrow> bridge \<Rightarrow> nat \<times> bridge" where
  "cachedSendCommand cache command args s =
     (case webview s of
        None \<Rightarrow> new_promise (Some (Fulfilled JNull)) s
      | Some w \<Rightarrow>
          (case args of
             JStr v # rest \<Rightarrow>
               (let (d, s1) =
                      (case cache_of s cache v of
                         Some d \<Rightarrow> (d, s)
                       | None \<Rightarrow>
                           (let (d, s') = new_Deferred s
                            in (d, webview_send w (JStr ''command'' # JStr command # args)
                                     (cache_update cache (\<lambda>m. m(v \<mapsto> d)) s'))));
                    (p, s2) = new_promise None s1
                in (p, then_deferred d (SendFrame cache command v p) s2))
           | _ \<Rightarrow> new_promise (Some (Rejected AssertionError)) s))"

text \<open>
  \<open>_cachedSendCommand\<close> from \<open>yield deferred.promise\<close> on (lines 407 to 413): a rejection is caught, logged
  and turned into \<open>null\<close>; the entry of \<open>value\<close> is deleted from the table; the call's
  promise is resolved with the result.
\<close>

definition cachedSendCommand_resume :: "send_frame \<Rightarrow> completion \<Rightarrow> bridge \<Rightarrow> bridge" where
  "cachedSendCommand_resume f out s =
     (let (r, s1) =
            (case out of
               Fulfilled v \<Rightarrow> (v, s)
             | Rejected e \<Rightarrow> (JNull, logger_warn (sf_command f @ '': Error getting result.'') e s));
          s2 = cache_update (sf_cache f) (\<lambda>m. m(sf_value f := None)) s1
      in settle_promise (sf_promise f) (Fulfilled r) s2)"

text \<open>\<open>getProperties\<close> (lines 301 to 304), and the two evaluation functions (lines 355 to
  381) up to their \<open>yield\<close>.\<close>

definition getProperties :: "jsval \<Rightarrow> bridge \<Rightarrow> nat \<times> bridge" where
  "getProperties objectId s =
     cachedSendCommand GetPropertiesRequestsInFlight ''getProperties'' [objectId] s"

definition failed_to_evaluate :: "string \<Rightarrow> jsval" where
  "failed_to_evaluate expression =
     JObj [(''type'', JStr ''text''), (''value'', JStr (''Failed to evaluate: '' @ expression))]"

definition evaluateOnSelectedCallFrame :: "string \<Rightarrow> string \<Rightarrow> bridge \<Rightarrow> nat \<times> bridge" where
  "evaluateOnSelectedCallFrame expression objectGroup s =
     (let (p, s1) = cachedSendCommand ExpressionsInFlight ''evaluateOnSelectedCallFrame''
                      [JStr expression, JStr objectGroup] s;
          (q, s2) = new_promise None s1
      in (q, then_promise p (EvalFrame expression q) s2))"

definition runtimeEvaluate :: "string \<Rightarrow> bridge \<Rightarrow> nat \<times> bridge" where
  "runtimeEvaluate expression s =
     (let (p, s1) = cachedSendCommand ExpressionsInFlight ''runtimeEvaluate''
                      [JStr expression] s;
          (q, s2) = new_promise None s1
      in (q, then_promise p (EvalFrame expression q) s2))"

text \<open>
  Both evaluation functions after their \<open>yield\<close>: a \<open>null\<close> or \<open>undefined\<close> result becomes
  the text \<open>Failed to evaluate: ...\<close>; a rejection of the awaited promise is thrown at the
  \<open>yield\<close>, not caught, and rejects the call's promise.
\<close>

definition evaluate_resume :: "eval_frame \<Rightarrow> completion \<Rightarrow> bridge \<Rightarrow> bridge" where
  "evaluate_resume f out s =
     (case out of
        Fulfilled r \<Rightarrow>
          (if is_nullish r
           then settle_promise (ef_promise f) (Fulfilled (failed_to_evaluate (ef_expression f))) s
           else settle_promise (ef_promise f) (Fulfilled r) s)
      | Rejected e \<Rightarrow> settle_promise (ef_promise f) (Rejected e) s)"

definition evaluateWatchExpression :: "string \<Rightarrow> bridge \<Rightarrow> nat \<times> bridge" where
  "evaluateWatchExpression expression s =
     evaluateOnSelectedCallFrame expression ''watch-group'' s"

text \<open>The debugger mode is read from the store, which is outside this file: it is
  an argument here.\<close>

definition evaluateConsoleExpression :: "string \<Rightarrow> string \<Rightarrow> bridge \<Rightarrow> nat \<times> bridge" where
  "evaluateConsoleExpression debuggerMode expression s =
     (if debuggerMode = ''paused''
      then evaluateOnSelectedCallFrame expression ''console'' s
      else runtimeEvaluate expression s)"

subsection \<open>The job queue\<close>

definition run_task :: "microtask \<Rightarrow> bridge \<Rightarrow> bridge" where
  "run_task t s = (case t of
       SendTask f out \<Rightarrow> cachedSendCommand_resume f out s
     | EvalTask f out \<Rightarrow> evaluate_resume f out s)"

text \<open>
  The microtask checkpoint at the end of a task: jobs run oldest first until the queue is
  empty. A job may queue further jobs; each job consumes one frame, so the loop ends.
\<close>

function run_microtasks :: "bridge \<Rightarrow> bridge" where
  "run_microtasks s =
     (case microtasks s of
        [] \<Rightarrow> s
      | t # ts \<Rightarrow> run_microtasks (run_task t (s\<lparr>microtasks := ts\<rparr>)))"
  by pat_completeness auto
termination
proof (relation "measure (\<lambda>s. length (microtasks s) + length (awaiting_promise s))")
  show "wf (measure (\<lambda>s. length (microtasks s) + length (awaiting_promise s)))" by simp
next
  fix s :: bridge and t ts
  assume queue: "microtasks s = t # ts"
  have settle: "length (microtasks (settle_promise p out u)) + length (awaiting_promise (settle_promise p out u))
      = length (microtasks u) + length (awaiting_promise u)" for p out u
  proof -
    have "length (filter (\<lambda>w. fst w = p) (awaiting_promise u))
        + length (filter (\<lambda>w. fst w \<noteq> p) (awaiting_promise u)) = length (awaiting_promise u)"
      using sum_length_filter_compl [of "\<lambda>w. fst w = p" "awaiting_promise u"] by simp
    then show ?thesis by (simp add: settle_promise_def)
  qed
  have task: "length (microtasks (run_task t u)) + length (awaiting_promise (run_task t u))
      = length (microtasks u) + length (awaiting_promise u)" for u
  proof (cases t)
    case (SendTask f out)
    then show ?thesis
      by (cases out; cases "sf_cache f")
         (simp_all add: run_task_def cachedSendCommand_resume_def settle
            cache_update_def logger_warn_def)
  next
    case (EvalTask f out)
    then show ?thesis
      by (cases out) (simp_all add: run_task_def evaluate_resume_def settle)
  qed
  show "(run_task t (s\<lparr>microtasks := ts\<rparr>), s)
      \<in> measure (\<lambda>s. length (microtasks s) + length (awaiting_promise s))"
    using queue by (simp add: task)
qed

declare run_microtasks.simps [simp del]

subsection \<open>Messages from the webview\<close>

text \<open>An answer of the webview: the object \<open>event.args[1]\<close>, with \<open>JUndefined\<close> for a
  property it does not have.\<close>

record response =
  result :: jsval
  error :: jsval
  expression :: jsval
  objectId :: jsval

text \<open>\<open>_handleResponseForPendingRequest\<close> (lines 437 to 452).\<close>

definition handleResponseForPendingRequest :: "cache_ref \<Rightarrow> response \<Rightarrow> jsval \<Rightarrow> bridge \<Rightarrow> bridge" where
  "handleResponseForPendingRequest pending resp key s =
     (case map_get (cache_of s pending) key of
        None \<Rightarrow> s
      | Some d \<Rightarrow>
          (if \<not> is_nullish (error resp)
           then Deferred_reject d (error resp) s
           else Deferred_resolve d (result resp) s))"

text \<open>\<open>normalizeRemoteObjectValue\<close> is not among the sources: it is an argument of
  the handlers that call it.\<close>

definition handleExpressionEvaluationResponse :: "(jsval \<Rightarrow> jsval) \<Rightarrow> response \<Rightarrow> bridge \<Rightarrow> bridge" where
  "handleExpressionEvaluationResponse normalizeRemoteObjectValue resp s =
     handleResponseForPendingRequest ExpressionsInFlight
       (resp\<lparr>result := normalizeRemoteObjectValue (result resp)\<rparr>) (expression resp) s"

definition handleGetPropertiesResponse :: "response \<Rightarrow> bridge \<Rightarrow> bridge" where
  "handleGetPropertiesResponse resp s =
     handleResponseForPendingRequest GetPropertiesRequestsInFlight resp (objectId resp) s"

text \<open>\<open>_handleDebuggerPaused\<close> (lines 534 to 538).\<close>

definition handleDebuggerPaused :: "bridge \<Rightarrow> bridge" where
  "handleDebuggerPaused s =
     s\<lparr>expressionsInFlight := Map.empty, actions := actions s @ [SetDebuggerMode PAUSED]\<rparr>"

text \<open>
  The notifications of \<open>_handleIpcMessage\<close> (lines 454 to 516) that read or write the two
  tables. The other
  cases of its \<open>switch\<close> (\<open>ready\<close>, \<open>CallFrameSelected\<close>, \<open>OpenSourceLocation\<close>,
  \<open>ClearInterface\<close>, \<open>DebuggerResumed\<close>, \<open>LoaderBreakpointResumed\<close>, \<open>BreakpointAdded\<close>,
  \<open>BreakpointRemoved\<close>, \<open>CallstackUpdate\<close>, \<open>LocalsUpdate\<close>, \<open>ThreadsUpdate\<close>,
  \<open>StopThreadSwitch\<close>) call the debugger model or send settings and breakpoints; they
  touch neither table and no deferred, and are left out.
\<close>

datatype notification =
    NonLoaderDebuggerPaused
  | ExpressionEvaluationResponse response
  | GetPropertiesResponse response

definition handleIpcMessage :: "(jsval \<Rightarrow> jsval) \<Rightarrow> notification \<Rightarrow> bridge \<Rightarrow> bridge" where
  "handleIpcMessage normalizeRemoteObjectValue ev s = (case ev of
       NonLoaderDebuggerPaused \<Rightarrow> handleDebuggerPaused s
     | ExpressionEvaluationResponse resp \<Rightarrow> handleExpressionEvaluationResponse normalizeRemoteObjectValue resp s
     | GetPropertiesResponse resp \<Rightarrow> handleGetPropertiesResponse resp s)"

subsection \<open>Tasks and runs\<close>

text \<open>
  The webview element dispatches an \<open>ipc-message\<close> event in a task of its own: the jobs
  of the task before it have run, then the listener runs, then the jobs it queued.
\<close>

definition on_ipc_message :: "(jsval \<Rightarrow> jsval) \<Rightarrow> notification \<Rightarrow> bridge \<Rightarrow> bridge" where
  "on_ipc_message normalizeRemoteObjectValue ev s =
     run_microtasks (handleIpcMessage normalizeRemoteObjectValue ev (run_microtasks s))"

text \<open>
  What the surroundings of a bridge can do with it: call a method, let the webview
  deliver a message, or end the current task (\<open>Checkpoint\<close>). Several method calls
  may happen in one task.
\<close>

datatype call =
    SetWebviewElement nat
  | Cleanup
  | CachedSendCommand cache_ref string "jsval list"
  | GetProperties jsval
  | EvaluateWatchExpression string
  | EvaluateConsoleExpression string string
  | IpcMessage notification
  | Checkpoint

definition step :: "(jsval \<Rightarrow> jsval) \<Rightarrow> call \<Rightarrow> bridge \<Rightarrow> bridge" where
  "step normalizeRemoteObjectValue c s = (case c of
       SetWebviewElement w \<Rightarrow> setWebviewElement w s
     | Cleanup \<Rightarrow> cleanup s
     | CachedSendCommand cache command args \<Rightarrow> snd (cachedSendCommand cache command args s)
     | GetProperties oid \<Rightarrow> snd (getProperties oid s)
     | EvaluateWatchExpression e \<Rightarrow> snd (evaluateWatchExpression e s)
     | EvaluateConsoleExpression mode e \<Rightarrow> snd (evaluateConsoleExpression mode e s)
     | IpcMessage ev \<Rightarrow> on_ipc_message normalizeRemoteObjectValue ev s
     | Checkpoint \<Rightarrow> run_microtasks s)"

fun exec :: "(jsval \<Rightarrow> jsval) \<Rightarrow> call list \<Rightarrow> bridge \<Rightarrow> bridge" where
  "exec n [] s = s"
| "exec n (c # cs) s = exec n cs (step n c s)"

text \<open>The deferreds that suspended calls of \<open>_cachedSendCommand\<close> for the key \<open>k\<close> of
  the table \<open>c\<close> are waiting on.\<close>

definition pending_waiters :: "bridge \<Rightarrow> cache_ref \<Rightarrow> string \<Rightarrow> nat list" where
  "pending_waiters s c k =
     map fst (filter (\<lambda>w. sf_cache (snd w) = c \<and> sf_value (snd w) = k) (awaiting_deferred s))"

text \<open>The frames suspended on the deferred \<open>d\<close>, oldest first.\<close>

definition waiting_on :: "bridge \<Rightarrow> nat \<Rightarrow> send_frame list" where
  "waiting_on s d = map snd (filter (\<lambda>w. fst w = d) (awaiting_deferred s))"

text \<open>What \<open>_cachedSendCommand\<close> returns for a completion of its deferred.\<close>

definition send_result :: "completion \<Rightarrow> jsval" where
  "send_result out = (case out of Fulfilled v \<Rightarrow> v | Rejected e \<Rightarrow> JNull)"

text \<open>The completion that \<open>_handleResponseForPendingRequest\<close> settles a deferred with.\<close>

definition response_completion :: "response \<Rightarrow> completion" where
  "response_completion resp =
     (if \<not> is_nullish (error resp) then Rejected (error resp) else Fulfilled (result resp))"

subsection \<open>Auxiliary notions for the proofs\<close>

text \<open>
  A job does two things: it settles the promise of its call (\<open>task_promise\<close>) with an
  outcome (\<open>task_outcome\<close>), and before that it may delete a table entry and log a
  warning (\<open>task_effect\<close>).
\<close>

definition task_promise :: "microtask \<Rightarrow> nat" where
  "task_promise t = (case t of SendTask f out \<Rightarrow> sf_promise f | EvalTask f out \<Rightarrow> ef_promise f)"

definition task_outcome :: "microtask \<Rightarrow> completion" where
  "task_outcome t = (case t of
       SendTask f out \<Rightarrow> Fulfilled (send_result out)
     | EvalTask f out \<Rightarrow>
         (case out of
            Fulfilled r \<Rightarrow> if is_nullish r then Fulfilled (failed_to_evaluate (ef_expression f)) else Fulfilled r
          | Rejected e \<Rightarrow> Rejected e))"

definition task_effect :: "microtask \<Rightarrow> bridge \<Rightarrow> bridge" where
  "task_effect t s = (case t of
       SendTask f out \<Rightarrow>
         cache_update (sf_cache f) (\<lambda>m. m(sf_value f := None))
           (case out of Fulfilled v \<Rightarrow> s
            | Rejected e \<Rightarrow> logger_warn (sf_command f @ '': Error getting result.'') e s)
     | EvalTask f out \<Rightarrow> s)"

text \<open>The table entries that the queued jobs will delete, and the warnings they will
  log.\<close>

definition send_keys :: "microtask list \<Rightarrow> (cache_ref \<times> string) list" where
  "send_keys ts = concat (map (\<lambda>t. case t of SendTask f out \<Rightarrow> [(sf_cache f, sf_value f)] | EvalTask f out \<Rightarrow> []) ts)"

definition send_warnings :: "microtask list \<Rightarrow> (string \<times> jsval) list" where
  "send_warnings ts = concat (map (\<lambda>t. case t of
       SendTask f (Rejected e) \<Rightarrow> [(sf_command f @ '': Error getting result.'', e)]
     | _ \<Rightarrow> []) ts)"

text \<open>The promises of the calls that have not finished: those of the queued jobs and of
  the suspended frames.\<close>

definition open_promises :: "bridge \<Rightarrow> nat list" where
  "open_promises s = map task_promise (microtasks s)
     @ map (\<lambda>w. ef_promise (snd w)) (awaiting_promise s)
     @ map (\<lambda>w. sf_promise (snd w)) (awaiting_deferred s)"

text \<open>
  The invariant of the heap. The promises of unfinished calls are allocated, pending and
  pairwise different (\<open>wf_promises\<close>); a suspended call waits on an allocated deferred
  (\<open>wf_frames\<close>); the deferred of a table entry is allocated, and it is pending with a
  call for that very entry suspended on it, or a queued job is about to delete the entry
  (\<open>wf_tables\<close>); the calls suspended on the deferred of an entry were made for that table
  and key (\<open>wf_owner\<close>). Between tasks no job of \<open>_cachedSendCommand\<close> is queued
  (\<open>quiet\<close>); \<open>stable\<close> is the invariant of the states between tasks.
\<close>

definition wf_promises :: "bridge \<Rightarrow> bool" where
  "wf_promises s = (distinct (open_promises s)
     \<and> (\<forall>p \<in> set (open_promises s). p < length (promises s) \<and> promises s ! p = None))"

definition wf_frames :: "bridge \<Rightarrow> bool" where
  "wf_frames s = (\<forall>w \<in> set (awaiting_deferred s). fst w < length (deferreds s))"

definition wf_tables :: "bridge \<Rightarrow> bool" where
  "wf_tables s = (\<forall>c k d. cache_of s c k = Some d \<longrightarrow>
      d < length (deferreds s) \<and>
      ((deferreds s ! d = None \<and> (\<exists>f. (d, f) \<in> set (awaiting_deferred s) \<and> sf_cache f = c \<and> sf_value f = k))
       \<or> (c, k) \<in> set (send_keys (microtasks s))))"

definition wf_owner :: "bridge \<Rightarrow> bool" where
  "wf_owner s = (\<forall>c k d f. cache_of s c k = Some d \<longrightarrow> (d, f) \<in> set (awaiting_deferred s) \<longrightarrow>
      sf_cache f = c \<and> sf_value f = k)"

definition quiet :: "bridge \<Rightarrow> bool" where
  "quiet s = (send_keys (microtasks s) = [])"

definition wf_rest :: "bridge \<Rightarrow> bool" where
  "wf_rest s = (wf_frames s \<and> wf_tables s \<and> wf_owner s)"

definition wf :: "bridge \<Rightarrow> bool" where
  "wf s = (wf_promises s \<and> wf_rest s)"

definition stable :: "bridge \<Rightarrow> bool" where
  "stable s = (wf s \<and> quiet s)"

text \<open>Every suspended call waits on the deferred that the table holds for its key: the
  invariant of runs without a pause notification.\<close>

definition single :: "bridge \<Rightarrow> bool" where
  "single s = (\<forall>w \<in> set (awaiting_deferred s).
      cache_of s (sf_cache (snd w)) (sf_value (snd w)) = Some (fst w))"

text \<open>The common shape of \<open>_evaluateOnSelectedCallFrame\<close> and \<open>_runtimeEvaluate\<close>, which
  differ in the command and its arguments only.\<close>

definition evaluate_with :: "string \<Rightarrow> jsval list \<Rightarrow> string \<Rightarrow> bridge \<Rightarrow> nat \<times> bridge" where
  "evaluate_with cmd rest e s =
     (let r = cachedSendCommand ExpressionsInFlight cmd (JStr e # rest) s
      in (length (promises (snd r)),
          then_promise (fst r) (EvalFrame e (length (promises (snd r))))
            ((snd r)\<lparr>promises := promises (snd r) @ [None]\<rparr>)))"



text \<open>A call stays suspended on its deferred until the deferred is settled.\<close>

definition still_waiting :: "bridge \<Rightarrow> nat \<Rightarrow> send_frame \<Rightarrow> bool" where
  "still_waiting s d f = ((d, f) \<in> set (awaiting_deferred s) \<or> cell_at (deferreds s) d \<noteq> None)"

text \<open>A pending deferred that no table holds.\<close>

definition abandoned :: "bridge \<Rightarrow> nat \<Rightarrow> bool" where
  "abandoned s d = (d < length (deferreds s) \<and> deferreds s ! d = None
     \<and> (\<forall>c k. cache_of s c k \<noteq> Some d))"

text \<open>The deferred \<open>d\<close> is the entry of the key \<open>k\<close> of the table \<open>c\<close> until it is settled:
  the invariant of the runs that do not clear the table.\<close>

definition entry_kept :: "bridge \<Rightarrow> cache_ref \<Rightarrow> string \<Rightarrow> nat \<Rightarrow> bool" where
  "entry_kept s c k d = (cache_of s c k = Some d \<or> cell_at (deferreds s) d \<noteq> None)"

section \<open>Lemmas\<close>

subsection \<open>Fields\<close>

lemma cache_of_cache_update:
  "cache_of (cache_update c f s) c' = (if c' = c then f (cache_of s c) else cache_of s c')"
  by (cases c; cases c') (simp_all add: cache_of_def cache_update_def)

lemma cache_update_fields:
  "webview (cache_update c f s) = webview s"
  "sent (cache_update c f s) = sent s"
  "deferreds (cache_update c f s) = deferreds s"
  "promises (cache_update c f s) = promises s"
  "awaiting_deferred (cache_update c f s) = awaiting_deferred s"
  "awaiting_promise (cache_update c f s) = awaiting_promise s"
  "microtasks (cache_update c f s) = microtasks s"
  "warnings (cache_update c f s) = warnings s"
  "actions (cache_update c f s) = actions s"
  "timeouts (cache_update c f s) = timeouts s"
  by (cases c; simp add: cache_update_def)+

lemma cache_of_fields:
  "cache_of (webview_update a s) = cache_of s"
  "cache_of (sent_update b s) = cache_of s"
  "cache_of (deferreds_update g s) = cache_of s"
  "cache_of (promises_update g s) = cache_of s"
  "cache_of (awaiting_deferred_update h s) = cache_of s"
  "cache_of (awaiting_promise_update i s) = cache_of s"
  "cache_of (microtasks_update j s) = cache_of s"
  "cache_of (warnings_update k s) = cache_of s"
  "cache_of (actions_update l s) = cache_of s"
  "cache_of (timeouts_update l s) = cache_of s"
  by (rule ext, rename_tac c, case_tac c, simp_all add: cache_of_def)+

lemma run_task_factor: "run_task t s = settle_promise (task_promise t) (task_outcome t) (task_effect t s)"
  by (cases t; cases "case t of SendTask f out \<Rightarrow> out | EvalTask f out \<Rightarrow> out")
     (simp_all add: run_task_def task_promise_def task_outcome_def task_effect_def
        cachedSendCommand_resume_def evaluate_resume_def send_result_def)

lemma settle_promise_fields:
  "webview (settle_promise p out s) = webview s"
  "sent (settle_promise p out s) = sent s"
  "deferreds (settle_promise p out s) = deferreds s"
  "awaiting_deferred (settle_promise p out s) = awaiting_deferred s"
  "warnings (settle_promise p out s) = warnings s"
  "actions (settle_promise p out s) = actions s"
  "timeouts (settle_promise p out s) = timeouts s"
  "cache_of (settle_promise p out s) = cache_of s"
  "length (promises (settle_promise p out s)) = length (promises s)"
  by (simp_all add: settle_promise_def cache_of_fields)

lemma task_effect_fields:
  "webview (task_effect t s) = webview s"
  "sent (task_effect t s) = sent s"
  "deferreds (task_effect t s) = deferreds s"
  "promises (task_effect t s) = promises s"
  "awaiting_deferred (task_effect t s) = awaiting_deferred s"
  "awaiting_promise (task_effect t s) = awaiting_promise s"
  "microtasks (task_effect t s) = microtasks s"
  "actions (task_effect t s) = actions s"
  "timeouts (task_effect t s) = timeouts s"
  by (simp_all add: task_effect_def cache_update_fields logger_warn_def
        split: microtask.splits completion.splits)

lemma task_effect_cache:
  "cache_of (task_effect t s) c k =
     (if (c, k) \<in> set (send_keys [t]) then None else cache_of s c k)"
  by (auto simp add: task_effect_def send_keys_def cache_of_cache_update cache_of_fields logger_warn_def
        split: microtask.splits completion.splits)

lemma task_effect_warnings:
  "warnings (task_effect t s) = warnings s @ send_warnings [t]"
  by (simp add: task_effect_def send_warnings_def cache_update_fields logger_warn_def
        split: microtask.splits completion.splits)

lemma settle_promise_send_keys:
  "send_keys (microtasks (settle_promise p out s)) = send_keys (microtasks s)"
  by (simp add: settle_promise_def send_keys_def)

lemma settle_promise_send_warnings:
  "send_warnings (microtasks (settle_promise p out s)) = send_warnings (microtasks s)"
  by (simp add: settle_promise_def send_warnings_def)

subsection \<open>What the jobs change\<close>

lemma run_microtasks_Nil: "microtasks s = [] \<Longrightarrow> run_microtasks s = s"
  by (simp add: run_microtasks.simps)

lemma run_microtasks_Cons:
  "microtasks s = t # ts \<Longrightarrow> run_microtasks s = run_microtasks (run_task t (s\<lparr>microtasks := ts\<rparr>))"
  by (subst run_microtasks.simps) simp

lemma run_microtasks_frame:
  "webview (run_microtasks s) = webview s \<and> sent (run_microtasks s) = sent s
   \<and> deferreds (run_microtasks s) = deferreds s
   \<and> awaiting_deferred (run_microtasks s) = awaiting_deferred s
   \<and> actions (run_microtasks s) = actions s \<and> timeouts (run_microtasks s) = timeouts s
   \<and> length (promises (run_microtasks s)) = length (promises s)"
proof (induction s rule: run_microtasks.induct)
  case (1 s)
  show ?case
  proof (cases "microtasks s")
    case Nil
    then show ?thesis by (simp add: run_microtasks_Nil)
  next
    case (Cons t ts)
    with 1 [OF Cons] show ?thesis
      by (simp add: run_microtasks_Cons run_task_factor settle_promise_fields task_effect_fields)
  qed
qed

lemma run_microtasks_empty: "microtasks (run_microtasks s) = []"
proof (induction s rule: run_microtasks.induct)
  case (1 s)
  show ?case
  proof (cases "microtasks s")
    case Nil
    then show ?thesis by (simp add: run_microtasks_Nil)
  next
    case (Cons t ts)
    with 1 [OF Cons] show ?thesis by (simp add: run_microtasks_Cons)
  qed
qed

lemma send_keys_Cons: "send_keys (t # ts) = send_keys [t] @ send_keys ts"
  by (simp add: send_keys_def)

lemma send_warnings_Cons: "send_warnings (t # ts) = send_warnings [t] @ send_warnings ts"
  by (simp add: send_warnings_def)

lemma run_microtasks_cache:
  "cache_of (run_microtasks s) c k =
     (if (c, k) \<in> set (send_keys (microtasks s)) then None else cache_of s c k)"
proof (induction s rule: run_microtasks.induct)
  case (1 s)
  show ?case
  proof (cases "microtasks s")
    case Nil
    then show ?thesis by (simp add: run_microtasks_Nil send_keys_def)
  next
    case (Cons t ts)
    have "send_keys (microtasks (run_task t (s\<lparr>microtasks := ts\<rparr>))) = send_keys ts"
      by (simp add: run_task_factor settle_promise_send_keys task_effect_fields)
    with 1 [OF Cons] Cons show ?thesis
      by (simp add: run_microtasks_Cons run_task_factor settle_promise_fields task_effect_cache
            cache_of_fields send_keys_Cons [of t ts])
  qed
qed

lemma run_microtasks_warnings:
  "warnings (run_microtasks s) = warnings s @ send_warnings (microtasks s)"
proof (induction s rule: run_microtasks.induct)
  case (1 s)
  show ?case
  proof (cases "microtasks s")
    case Nil
    then show ?thesis by (simp add: run_microtasks_Nil send_warnings_def)
  next
    case (Cons t ts)
    have "send_warnings (microtasks (run_task t (s\<lparr>microtasks := ts\<rparr>))) = send_warnings ts"
      by (simp add: run_task_factor settle_promise_send_warnings task_effect_fields)
    with 1 [OF Cons] Cons show ?thesis
      by (simp add: run_microtasks_Cons run_task_factor settle_promise_fields task_effect_warnings
            send_warnings_Cons [of t ts])
  qed
qed

subsection \<open>The promises of unfinished calls\<close>

lemma mset_map_filter_split:
  "mset (map f (filter P xs)) + mset (map f (filter (\<lambda>x. \<not> P x) xs)) = mset (map f xs)"
  by (induction xs) simp_all

lemma settle_promise_open:
  "mset (open_promises (settle_promise p out s)) = mset (open_promises s)"
proof (cases "p < length (promises s) \<and> promises s ! p = None")
  case True
  have "open_promises (settle_promise p out s) =
      map task_promise (microtasks s)
      @ map (\<lambda>w. ef_promise (snd w)) (filter (\<lambda>w. fst w = p) (awaiting_promise s))
      @ map (\<lambda>w. ef_promise (snd w)) (filter (\<lambda>w. \<not> fst w = p) (awaiting_promise s))
      @ map (\<lambda>w. sf_promise (snd w)) (awaiting_deferred s)"
    using True by (simp add: settle_promise_def open_promises_def task_promise_def)
  then show ?thesis
    using mset_map_filter_split [of "\<lambda>w. ef_promise (snd w)" "\<lambda>w. fst w = p" "awaiting_promise s"]
    by (simp add: open_promises_def)
next
  case False
  then have "settle_promise p out s = s" by (auto simp add: settle_promise_def)
  then show ?thesis by simp
qed

lemma settle_promise_promises:
  "promises (settle_promise p out s) =
     (if p < length (promises s) \<and> promises s ! p = None
      then (promises s)[p := Some out] else promises s)"
  by (simp add: settle_promise_def)

lemma task_effect_open: "open_promises (task_effect t s) = open_promises s"
  by (simp add: open_promises_def task_effect_fields)

lemma open_promises_Cons:
  "microtasks s = t # ts \<Longrightarrow> open_promises s = task_promise t # open_promises (s\<lparr>microtasks := ts\<rparr>)"
  by (simp add: open_promises_def)

lemma run_task_open:
  assumes "microtasks s = t # ts"
  shows "mset (open_promises s)
       = add_mset (task_promise t) (mset (open_promises (run_task t (s\<lparr>microtasks := ts\<rparr>))))"
  using assms
  by (simp add: run_task_factor settle_promise_open task_effect_open open_promises_Cons)

lemma run_task_promises:
  "promises (run_task t s) =
     (if task_promise t < length (promises s) \<and> promises s ! task_promise t = None
      then (promises s)[task_promise t := Some (task_outcome t)] else promises s)"
  by (simp add: run_task_factor settle_promise_promises task_effect_fields)

lemma wf_promises_run_task:
  assumes wf: "wf_promises s" and q: "microtasks s = t # ts"
  shows "wf_promises (run_task t (s\<lparr>microtasks := ts\<rparr>))"
    and "task_promise t \<notin> set (open_promises (run_task t (s\<lparr>microtasks := ts\<rparr>)))"
    and "promises (run_task t (s\<lparr>microtasks := ts\<rparr>)) = (promises s)[task_promise t := Some (task_outcome t)]"
    and "task_promise t < length (promises s)"
proof -
  let ?s' = "run_task t (s\<lparr>microtasks := ts\<rparr>)"
  let ?p = "task_promise t"
  have m: "mset (open_promises s) = mset (?p # open_promises ?s')"
    using run_task_open [OF q] by simp
  from wf have d: "distinct (open_promises s)"
    and c: "\<And>x. x \<in> set (open_promises s) \<Longrightarrow> x < length (promises s) \<and> promises s ! x = None"
    by (simp_all add: wf_promises_def)
  from m d have d': "distinct (?p # open_promises ?s')"
    using mset_eq_imp_distinct_iff by blast
  from m have st: "set (open_promises s) = set (?p # open_promises ?s')"
    by (rule mset_eq_setD)
  from st c [of ?p] have pp: "?p < length (promises s)" "promises s ! ?p = None" by simp_all
  show "?p < length (promises s)" by (rule pp)
  from d' show "?p \<notin> set (open_promises ?s')" by simp
  from pp show pr: "promises ?s' = (promises s)[?p := Some (task_outcome t)]"
    by (simp add: run_task_promises)
  show "wf_promises ?s'"
    unfolding wf_promises_def
  proof (intro conjI ballI)
    from d' show "distinct (open_promises ?s')" by simp
  next
    fix x assume x: "x \<in> set (open_promises ?s')"
    with d' have "x \<noteq> ?p" by auto
    moreover from x st have "x \<in> set (open_promises s)" by simp
    ultimately show "x < length (promises ?s')" "promises ?s' ! x = None"
      using c [of x] by (simp_all add: pr)
  qed
qed

lemma wf_promises_run_microtasks: "wf_promises s \<Longrightarrow> wf_promises (run_microtasks s)"
proof (induction s rule: run_microtasks.induct)
  case (1 s)
  show ?case
  proof (cases "microtasks s")
    case Nil
    with 1 show ?thesis by (simp add: run_microtasks_Nil)
  next
    case (Cons t ts)
    from "1.IH" [OF Cons wf_promises_run_task(1) [OF "1.prems" Cons]] Cons
    show ?thesis by (simp add: run_microtasks_Cons)
  qed
qed

text \<open>A promise that no unfinished call owns is not touched by the jobs.\<close>

lemma run_microtasks_other_promise:
  "p \<notin> set (open_promises s) \<Longrightarrow> cell_at (promises (run_microtasks s)) p = cell_at (promises s) p"
proof (induction s rule: run_microtasks.induct)
  case (1 s)
  show ?case
  proof (cases "microtasks s")
    case Nil
    then show ?thesis by (simp add: run_microtasks_Nil)
  next
    case (Cons t ts)
    let ?s' = "run_task t (s\<lparr>microtasks := ts\<rparr>)"
    from run_task_open [OF Cons] have "set (open_promises s) = set (task_promise t # open_promises ?s')"
      using mset_eq_setD [of "open_promises s" "task_promise t # open_promises ?s'"] by simp
    with "1.prems" have ne: "p \<noteq> task_promise t" and nin: "p \<notin> set (open_promises ?s')" by auto
    have "cell_at (promises ?s') p = cell_at (promises s) p"
      using ne by (simp add: run_task_promises cell_at_def)
    with "1.IH" [OF Cons nin] Cons show ?thesis by (simp add: run_microtasks_Cons)
  qed
qed

text \<open>Every queued job settles the promise of its call with its outcome.\<close>

lemma run_microtasks_task:
  "wf_promises s \<Longrightarrow> t \<in> set (microtasks s) \<Longrightarrow>
     cell_at (promises (run_microtasks s)) (task_promise t) = Some (task_outcome t)"
proof (induction s rule: run_microtasks.induct)
  case (1 s)
  from "1.prems"(2) obtain t0 ts where q: "microtasks s = t0 # ts" by (cases "microtasks s") auto
  let ?s' = "run_task t0 (s\<lparr>microtasks := ts\<rparr>)"
  note step = wf_promises_run_task [OF "1.prems"(1) q]
  show ?case
  proof (cases "t = t0")
    case True
    have "cell_at (promises (run_microtasks ?s')) (task_promise t0) = cell_at (promises ?s') (task_promise t0)"
      using step(2) by (rule run_microtasks_other_promise)
    also have "\<dots> = Some (task_outcome t0)"
      using step(3,4) by (simp add: cell_at_def)
    finally show ?thesis using q True by (simp add: run_microtasks_Cons)
  next
    case False
    with "1.prems"(2) q have "t \<in> set ts" by simp
    moreover have "\<exists>new. microtasks ?s' = ts @ new"
      by (simp add: run_task_factor settle_promise_def task_effect_fields)
    ultimately have "t \<in> set (microtasks ?s')" by auto
    from "1.IH" [OF q step(1) this] q show ?thesis by (simp add: run_microtasks_Cons)
  qed
qed

text \<open>A call that awaits the promise of a queued job is resumed with the job's outcome.\<close>

lemma run_microtasks_awaiting:
  "wf_promises s \<Longrightarrow> t \<in> set (microtasks s) \<Longrightarrow> (task_promise t, f) \<in> set (awaiting_promise s) \<Longrightarrow>
     cell_at (promises (run_microtasks s)) (ef_promise f) = Some (task_outcome (EvalTask f (task_outcome t)))"
proof (induction s rule: run_microtasks.induct)
  case (1 s)
  from "1.prems"(2) obtain t0 ts where q: "microtasks s = t0 # ts" by (cases "microtasks s") auto
  let ?s' = "run_task t0 (s\<lparr>microtasks := ts\<rparr>)"
  note step = wf_promises_run_task [OF "1.prems"(1) q]
  from "1.prems"(1) q have pend: "task_promise t0 < length (promises s) \<and> promises s ! task_promise t0 = None"
    by (simp add: wf_promises_def open_promises_def)
  show ?case
  proof (cases "task_promise t = task_promise t0")
    case True
    have "EvalTask f (task_outcome t0) \<in> set (microtasks ?s')"
      using pend "1.prems"(3) True
      by (simp add: run_task_factor settle_promise_def task_effect_fields image_iff)
    from run_microtasks_task [OF step(1) this] 
    have "cell_at (promises (run_microtasks ?s')) (ef_promise f) = Some (task_outcome (EvalTask f (task_outcome t0)))"
      by (simp add: task_promise_def)
    moreover have "t = t0"
    proof (rule ccontr)
      assume "t \<noteq> t0"
      with "1.prems"(2) q have "task_promise t \<in> task_promise ` set ts" by auto
      with "1.prems"(1) q True show False
        by (simp add: wf_promises_def open_promises_def)
    qed
    ultimately show ?thesis using q by (simp add: run_microtasks_Cons)
  next
    case False
    with "1.prems"(2) q have "t \<in> set ts" by auto
    moreover have "\<exists>new. microtasks ?s' = ts @ new"
      by (simp add: run_task_factor settle_promise_def task_effect_fields)
    ultimately have a: "t \<in> set (microtasks ?s')" by auto
    have b: "(task_promise t, f) \<in> set (awaiting_promise ?s')"
      using "1.prems"(3) False by (simp add: run_task_factor settle_promise_def task_effect_fields)
    from "1.IH" [OF q step(1) a b] q show ?thesis by (simp add: run_microtasks_Cons)
  qed
qed

subsection \<open>The invariant is kept\<close>

lemma wf_Bridge: "wf Bridge" "quiet Bridge"
  by (simp_all add: wf_def wf_rest_def wf_promises_def wf_frames_def wf_tables_def wf_owner_def
        quiet_def open_promises_def Bridge_def cache_of_def send_keys_def split: cache_ref.splits)

lemma wf_rest_run_task:
  assumes wfr: "wf_rest s" and q: "microtasks s = t # ts"
  shows "wf_rest (run_task t (s\<lparr>microtasks := ts\<rparr>))"
proof -
  from wfr have assms: "wf_frames s" "wf_tables s" "wf_owner s" by (simp_all add: wf_rest_def)
  let ?s' = "run_task t (s\<lparr>microtasks := ts\<rparr>)"
  have f: "deferreds ?s' = deferreds s" "awaiting_deferred ?s' = awaiting_deferred s"
    by (simp_all add: run_task_factor settle_promise_fields task_effect_fields)
  have k: "send_keys (microtasks ?s') = send_keys ts"
    by (simp add: run_task_factor settle_promise_send_keys task_effect_fields)
  have c: "cache_of ?s' c k = (if (c, k) \<in> set (send_keys [t]) then None else cache_of s c k)" for c k
    by (simp add: run_task_factor settle_promise_fields task_effect_cache cache_of_fields)
  from assms have "wf_frames ?s'" by (simp add: wf_frames_def f)
  moreover from assms have "wf_owner ?s'"
    by (auto simp add: wf_owner_def f c split: if_splits)
  moreover have "wf_tables ?s'"
    unfolding wf_tables_def
  proof (intro allI impI)
    fix c k d assume "cache_of ?s' c k = Some d"
    then have n: "(c, k) \<notin> set (send_keys [t])" and e: "cache_of s c k = Some d"
      by (simp_all add: c split: if_splits)
    from assms e have "d < length (deferreds s) \<and>
      ((deferreds s ! d = None \<and> (\<exists>f. (d, f) \<in> set (awaiting_deferred s) \<and> sf_cache f = c \<and> sf_value f = k))
       \<or> (c, k) \<in> set (send_keys (microtasks s)))"
      by (simp add: wf_tables_def)
    with n q show "d < length (deferreds ?s') \<and>
      ((deferreds ?s' ! d = None \<and> (\<exists>f. (d, f) \<in> set (awaiting_deferred ?s') \<and> sf_cache f = c \<and> sf_value f = k))
       \<or> (c, k) \<in> set (send_keys (microtasks ?s')))"
      by (auto simp add: f k send_keys_Cons [of t ts])
  qed
  ultimately show ?thesis by (simp add: wf_rest_def)
qed

lemma wf_rest_run_microtasks:
  "wf_rest s \<Longrightarrow> wf_rest (run_microtasks s)"
proof (induction s rule: run_microtasks.induct)
  case (1 s)
  show ?case
  proof (cases "microtasks s")
    case Nil
    with 1 show ?thesis by (simp add: run_microtasks_Nil)
  next
    case (Cons t ts)
    from "1.IH" [OF Cons wf_rest_run_task [OF "1.prems" Cons]] Cons
    show ?thesis by (simp add: run_microtasks_Cons)
  qed
qed

lemma wf_run_microtasks: "wf s \<Longrightarrow> wf (run_microtasks s)"
  using wf_rest_run_microtasks [of s] wf_promises_run_microtasks [of s] by (simp add: wf_def)

lemma quiet_run_microtasks: "quiet (run_microtasks s)"
  by (simp add: quiet_def run_microtasks_empty send_keys_def)

lemma wf_promises_mono:
  assumes "wf_promises s" and "promises s' = promises s @ cells"
    and "mset (open_promises s') = mset (open_promises s)"
  shows "wf_promises s'"
proof -
  from assms(3) have "distinct (open_promises s') = distinct (open_promises s)"
    by (rule mset_eq_imp_distinct_iff)
  moreover from assms(3) have "set (open_promises s') = set (open_promises s)"
    by (rule mset_eq_setD)
  ultimately show ?thesis
    using assms(1,2) by (auto simp add: wf_promises_def nth_append)
qed

lemma wf_promises_alloc:
  assumes "wf_promises s" and "promises s' = promises s @ [None]"
    and "mset (open_promises s') = add_mset (length (promises s)) (mset (open_promises s))"
  shows "wf_promises s'"
proof -
  from assms(3) have m: "mset (open_promises s') = mset (length (promises s) # open_promises s)"
    by simp
  from assms(1) have "length (promises s) \<notin> set (open_promises s)"
    by (auto simp add: wf_promises_def)
  with assms(1) have "distinct (length (promises s) # open_promises s)"
    by (simp add: wf_promises_def)
  with m have "distinct (open_promises s')"
    using mset_eq_imp_distinct_iff by blast
  moreover from m have "set (open_promises s') = set (length (promises s) # open_promises s)"
    by (rule mset_eq_setD)
  ultimately show ?thesis
    using assms(1,2) by (auto simp add: wf_promises_def nth_append)
qed

lemma wf_rest_cong:
  assumes "cache_of s' = cache_of s" and "deferreds s' = deferreds s"
    and "awaiting_deferred s' = awaiting_deferred s"
    and "send_keys (microtasks s') = send_keys (microtasks s)"
  shows "wf_rest s' = wf_rest s"
  by (simp add: wf_rest_def wf_frames_def wf_tables_def wf_owner_def assms)

lemma wf_tables_entry:
  "wf_rest s \<Longrightarrow> quiet s \<Longrightarrow> cache_of s c k = Some d \<Longrightarrow>
     d < length (deferreds s) \<and> deferreds s ! d = None
     \<and> (\<exists>f. (d, f) \<in> set (awaiting_deferred s) \<and> sf_cache f = c \<and> sf_value f = k)"
  by (simp add: wf_rest_def wf_tables_def quiet_def)

lemma wf_rest_reuse:
  assumes wf: "wf_rest s" and q: "quiet s"
    and e: "cache_of s c k = Some d"
    and c': "cache_of s' = cache_of s" and d': "deferreds s' = deferreds s"
    and a': "awaiting_deferred s' = awaiting_deferred s @ [(d, f)]"
    and f: "sf_cache f = c" "sf_value f = k"
    and m': "send_keys (microtasks s') = send_keys (microtasks s)"
  shows "wf_rest s'"
proof -
  from wf_tables_entry [OF wf q e]
  obtain f0 where f0: "d < length (deferreds s)" "(d, f0) \<in> set (awaiting_deferred s)"
      "sf_cache f0 = c" "sf_value f0 = k"
    by blast
  from wf f0 have "wf_frames s'"
    by (simp add: wf_rest_def wf_frames_def a' d')
  moreover from wf have "wf_tables s'"
    unfolding wf_rest_def wf_tables_def c' d' a' m' by (simp, blast)
  moreover have "wf_owner s'"
    unfolding wf_owner_def
  proof (intro allI impI)
    fix c1 k1 d1 f1
    assume 1: "cache_of s' c1 k1 = Some d1" and 2: "(d1, f1) \<in> set (awaiting_deferred s')"
    from wf have o: "\<And>c k d f. cache_of s c k = Some d \<Longrightarrow> (d, f) \<in> set (awaiting_deferred s)
        \<Longrightarrow> sf_cache f = c \<and> sf_value f = k"
      by (simp add: wf_rest_def wf_owner_def)
    show "sf_cache f1 = c1 \<and> sf_value f1 = k1"
    proof (cases "(d1, f1) \<in> set (awaiting_deferred s)")
      case True
      with 1 o show ?thesis by (simp add: c')
    next
      case False
      with 2 have "d1 = d" "f1 = f" by (simp_all add: a')
      with 1 o [of c1 k1 d f0] f0 f show ?thesis by (simp add: c')
    qed
  qed
  ultimately show ?thesis by (simp add: wf_rest_def)
qed

lemma wf_rest_new:
  assumes wf: "wf_rest s"
    and c': "cache_of s' = (cache_of s)(c := (cache_of s c)(k \<mapsto> length (deferreds s)))"
    and d': "deferreds s' = deferreds s @ [None]"
    and a': "awaiting_deferred s' = awaiting_deferred s @ [(length (deferreds s), f)]"
    and f: "sf_cache f = c" "sf_value f = k"
    and m': "send_keys (microtasks s') = send_keys (microtasks s)"
  shows "wf_rest s'"
proof -
  from wf have fr: "\<And>w. w \<in> set (awaiting_deferred s) \<Longrightarrow> fst w < length (deferreds s)"
    by (simp add: wf_rest_def wf_frames_def)
  from wf have tb: "\<And>c k d. cache_of s c k = Some d \<Longrightarrow> d < length (deferreds s) \<and>
      ((deferreds s ! d = None \<and> (\<exists>f. (d, f) \<in> set (awaiting_deferred s) \<and> sf_cache f = c \<and> sf_value f = k))
       \<or> (c, k) \<in> set (send_keys (microtasks s)))"
    by (simp add: wf_rest_def wf_tables_def)
  from wf have o: "\<And>c k d f. cache_of s c k = Some d \<Longrightarrow> (d, f) \<in> set (awaiting_deferred s)
        \<Longrightarrow> sf_cache f = c \<and> sf_value f = k"
    by (simp add: wf_rest_def wf_owner_def)
  have "wf_frames s'"
    using fr by (auto simp add: wf_frames_def a' d' less_Suc_eq)
  moreover have "wf_tables s'"
    unfolding wf_tables_def
  proof (intro allI impI)
    fix c1 k1 d1 assume 1: "cache_of s' c1 k1 = Some d1"
    show "d1 < length (deferreds s') \<and>
      ((deferreds s' ! d1 = None \<and> (\<exists>f. (d1, f) \<in> set (awaiting_deferred s') \<and> sf_cache f = c1 \<and> sf_value f = k1))
       \<or> (c1, k1) \<in> set (send_keys (microtasks s')))"
    proof (cases "c1 = c \<and> k1 = k")
      case True
      with 1 have "d1 = length (deferreds s)" by (simp add: c')
      with True f show ?thesis by (auto simp add: d' a')
    next
      case False
      with 1 have "cache_of s c1 k1 = Some d1" by (auto simp add: c' split: if_splits)
      from tb [OF this] show ?thesis
        by (auto simp add: d' a' m' nth_append)
    qed
  qed
  moreover have "wf_owner s'"
    unfolding wf_owner_def
  proof (intro allI impI)
    fix c1 k1 d1 f1
    assume 1: "cache_of s' c1 k1 = Some d1" and 2: "(d1, f1) \<in> set (awaiting_deferred s')"
    show "sf_cache f1 = c1 \<and> sf_value f1 = k1"
    proof (cases "c1 = c \<and> k1 = k")
      case True
      with 1 have "d1 = length (deferreds s)" by (simp add: c')
      with 2 fr [of "(d1, f1)"] have "f1 = f" by (auto simp add: a')
      with True f show ?thesis by simp
    next
      case False
      with 1 have e: "cache_of s c1 k1 = Some d1" by (auto simp add: c' split: if_splits)
      with tb [OF e] 2 have "(d1, f1) \<in> set (awaiting_deferred s)" by (auto simp add: a')
      with o [OF e] show ?thesis by simp
    qed
  qed
  ultimately show ?thesis by (simp add: wf_rest_def)
qed

lemma wf_rest_shrink:
  assumes wf: "wf_rest s"
    and c': "\<And>c k d. cache_of s' c k = Some d \<Longrightarrow> cache_of s c k = Some d"
    and d': "deferreds s' = deferreds s"
    and a': "awaiting_deferred s' = awaiting_deferred s"
    and m': "send_keys (microtasks s') = send_keys (microtasks s)"
  shows "wf_rest s'"
proof -
  from wf have "wf_frames s'" by (simp add: wf_rest_def wf_frames_def a' d')
  moreover from wf have "wf_tables s'"
    unfolding wf_rest_def wf_tables_def d' a' m' using c' by blast
  moreover from wf have "wf_owner s'"
    unfolding wf_rest_def wf_owner_def a' using c' by blast
  ultimately show ?thesis by (simp add: wf_rest_def)
qed

lemma send_keys_append: "send_keys (xs @ ys) = send_keys xs @ send_keys ys"
  by (simp add: send_keys_def)

lemma send_keys_SendTasks:
  "set (send_keys (map (\<lambda>w. SendTask (snd w) out) ws)) = (\<lambda>w. (sf_cache (snd w), sf_value (snd w))) ` set ws"
  by (induction ws) (auto simp add: send_keys_def)

lemma wf_rest_settle_deferred:
  assumes wf: "wf_rest s" and q: "quiet s"
  shows "wf_rest (settle_deferred d out s)"
proof (cases "d < length (deferreds s) \<and> deferreds s ! d = None")
  case False
  then have "settle_deferred d out s = s" by (auto simp add: settle_deferred_def)
  with wf show ?thesis by simp
next
  case True
  let ?s' = "settle_deferred d out s"
  have d': "deferreds ?s' = (deferreds s)[d := Some out]"
    and a': "awaiting_deferred ?s' = filter (\<lambda>w. fst w \<noteq> d) (awaiting_deferred s)"
    and m': "microtasks ?s' = microtasks s @ map (\<lambda>w. SendTask (snd w) out) (filter (\<lambda>w. fst w = d) (awaiting_deferred s))"
    and c': "cache_of ?s' = cache_of s"
    using True by (simp_all add: settle_deferred_def cache_of_fields)
  from wf have "wf_frames ?s'" by (simp add: wf_rest_def wf_frames_def a' d')
  moreover from wf have "wf_owner ?s'"
    unfolding wf_rest_def wf_owner_def a' c' by auto
  moreover have "wf_tables ?s'"
    unfolding wf_tables_def
  proof (intro allI impI)
    fix c1 k1 d1 assume "cache_of ?s' c1 k1 = Some d1"
    then have e: "cache_of s c1 k1 = Some d1" by (simp add: c')
    from wf_tables_entry [OF wf q e]
    obtain f0 where f0: "d1 < length (deferreds s)" "deferreds s ! d1 = None"
        "(d1, f0) \<in> set (awaiting_deferred s)" "sf_cache f0 = c1" "sf_value f0 = k1"
      by blast
    show "d1 < length (deferreds ?s') \<and>
      ((deferreds ?s' ! d1 = None \<and> (\<exists>f. (d1, f) \<in> set (awaiting_deferred ?s') \<and> sf_cache f = c1 \<and> sf_value f = k1))
       \<or> (c1, k1) \<in> set (send_keys (microtasks ?s')))"
    proof (cases "d1 = d")
      case True
      with f0 have "(c1, k1) \<in> set (send_keys (microtasks ?s'))"
        by (force simp add: m' send_keys_append send_keys_SendTasks)
      with f0 show ?thesis by (simp add: d')
    next
      case False
      with f0 show ?thesis by (auto simp add: d' a')
    qed
  qed
  ultimately show ?thesis by (simp add: wf_rest_def)
qed

lemma settle_deferred_open:
  "mset (open_promises (settle_deferred d out s)) = mset (open_promises s)"
proof (cases "d < length (deferreds s) \<and> deferreds s ! d = None")
  case True
  have "open_promises (settle_deferred d out s) =
      map task_promise (microtasks s)
      @ map (\<lambda>w. sf_promise (snd w)) (filter (\<lambda>w. fst w = d) (awaiting_deferred s))
      @ map (\<lambda>w. ef_promise (snd w)) (awaiting_promise s)
      @ map (\<lambda>w. sf_promise (snd w)) (filter (\<lambda>w. \<not> fst w = d) (awaiting_deferred s))"
    using True by (simp add: settle_deferred_def open_promises_def task_promise_def)
  then show ?thesis
    using mset_map_filter_split [of "\<lambda>w. sf_promise (snd w)" "\<lambda>w. fst w = d" "awaiting_deferred s"]
    by (simp add: open_promises_def)
next
  case False
  then have "settle_deferred d out s = s" by (auto simp add: settle_deferred_def)
  then show ?thesis by simp
qed

lemma wf_settle_deferred:
  assumes "wf s" and "quiet s"
  shows "wf (settle_deferred d out s)"
proof -
  have "promises (settle_deferred d out s) = promises s @ []"
    by (simp add: settle_deferred_def)
  with assms(1) have "wf_promises (settle_deferred d out s)"
    using wf_promises_mono [OF _ _ settle_deferred_open] by (simp add: wf_def)
  with assms wf_rest_settle_deferred [of s d out] show ?thesis
    by (simp add: wf_def)
qed

lemma cachedSendCommand_new_eq:
  assumes "webview s = Some w" and "cache_of s c k = None"
  shows "cachedSendCommand c cmd (JStr k # rest) s =
     (length (promises s),
      (cache_update c (\<lambda>m. m(k \<mapsto> length (deferreds s))) (s\<lparr>deferreds := deferreds s @ [None]\<rparr>))
        \<lparr>sent := sent s @ [(w, JStr ''command'' # JStr cmd # JStr k # rest)],
         promises := promises s @ [None],
         awaiting_deferred := awaiting_deferred s @ [(length (deferreds s), SendFrame c cmd k (length (promises s)))]\<rparr>)"
  using assms
  by (simp add: cachedSendCommand_def new_promise_def then_deferred_def new_Deferred_def
        webview_send_def cell_at_def cache_update_fields)

lemma cachedSendCommand_new:
  assumes "webview s = Some w" and "cache_of s c k = None"
  shows "fst (cachedSendCommand c cmd (JStr k # rest) s) = length (promises s)"
    and "promises (snd (cachedSendCommand c cmd (JStr k # rest) s)) = promises s @ [None]"
    and "deferreds (snd (cachedSendCommand c cmd (JStr k # rest) s)) = deferreds s @ [None]"
    and "cache_of (snd (cachedSendCommand c cmd (JStr k # rest) s))
          = (cache_of s)(c := (cache_of s c)(k \<mapsto> length (deferreds s)))"
    and "awaiting_deferred (snd (cachedSendCommand c cmd (JStr k # rest) s))
          = awaiting_deferred s @ [(length (deferreds s), SendFrame c cmd k (length (promises s)))]"
    and "awaiting_promise (snd (cachedSendCommand c cmd (JStr k # rest) s)) = awaiting_promise s"
    and "microtasks (snd (cachedSendCommand c cmd (JStr k # rest) s)) = microtasks s"
    and "sent (snd (cachedSendCommand c cmd (JStr k # rest) s))
          = sent s @ [(w, JStr ''command'' # JStr cmd # JStr k # rest)]"
    and "webview (snd (cachedSendCommand c cmd (JStr k # rest) s)) = webview s"
    and "warnings (snd (cachedSendCommand c cmd (JStr k # rest) s)) = warnings s"
    and "actions (snd (cachedSendCommand c cmd (JStr k # rest) s)) = actions s"
    and "timeouts (snd (cachedSendCommand c cmd (JStr k # rest) s)) = timeouts s"
proof -
  note eq = cachedSendCommand_new_eq [OF assms, of cmd rest]
  show "cache_of (snd (cachedSendCommand c cmd (JStr k # rest) s))
          = (cache_of s)(c := (cache_of s c)(k \<mapsto> length (deferreds s)))"
    by (rule ext) (simp add: eq cache_of_fields cache_of_cache_update)
qed (simp_all add: cachedSendCommand_new_eq [OF assms] cache_update_fields)

lemma cachedSendCommand_disconnected:
  "webview s = None \<Longrightarrow>
   cachedSendCommand c cmd args s = (length (promises s), s\<lparr>promises := promises s @ [Some (Fulfilled JNull)]\<rparr>)"
  by (simp add: cachedSendCommand_def new_promise_def)

lemma cachedSendCommand_assert:
  "webview s = Some w \<Longrightarrow> (\<And>k rest. args \<noteq> JStr k # rest) \<Longrightarrow>
   cachedSendCommand c cmd args s = (length (promises s), s\<lparr>promises := promises s @ [Some (Rejected AssertionError)]\<rparr>)"
  by (simp add: cachedSendCommand_def new_promise_def split: list.splits jsval.splits)

lemma cachedSendCommand_reuse:
  "webview s = Some w \<Longrightarrow> cache_of s c k = Some d \<Longrightarrow> cell_at (deferreds s) d = None \<Longrightarrow>
   cachedSendCommand c cmd (JStr k # rest) s =
     (length (promises s),
      s\<lparr>promises := promises s @ [None],
        awaiting_deferred := awaiting_deferred s @ [(d, SendFrame c cmd k (length (promises s)))]\<rparr>)"
  by (simp add: cachedSendCommand_def new_promise_def then_deferred_def)

lemma stable_promises_append:
  assumes "stable s"
  shows "stable (s\<lparr>promises := promises s @ [Some out]\<rparr>)"
proof -
  let ?s' = "s\<lparr>promises := promises s @ [Some out]\<rparr>"
  from assms have "wf_promises s" by (simp add: stable_def wf_def)
  then have "wf_promises ?s'"
    by (rule wf_promises_mono [where cells = "[Some out]"]) (simp_all add: open_promises_def)
  moreover have "wf_rest ?s' = wf_rest s"
    by (rule wf_rest_cong) (simp_all add: cache_of_fields)
  moreover have "quiet ?s' = quiet s" by (simp add: quiet_def)
  ultimately show ?thesis
    using assms unfolding stable_def wf_def by blast
qed

lemma stable_cachedSendCommand:
  assumes st: "stable s"
  shows "stable (snd (cachedSendCommand c cmd args s))"
proof (cases "webview s")
  case None
  with st show ?thesis by (simp add: cachedSendCommand_disconnected stable_promises_append)
next
  case (Some w)
  show ?thesis
  proof (cases "\<exists>k rest. args = JStr k # rest")
    case False
    then have "\<And>k rest. args \<noteq> JStr k # rest" by simp
    from cachedSendCommand_assert [OF Some this] st show ?thesis
      by (simp add: stable_promises_append)
  next
    case True
    then obtain k rest where args: "args = JStr k # rest" by blast
    from st have wfr: "wf_rest s" and q: "quiet s" and wp: "wf_promises s"
      by (simp_all add: stable_def wf_def)
    show ?thesis
    proof (cases "cache_of s c k")
      case None
      let ?s' = "snd (cachedSendCommand c cmd (JStr k # rest) s)"
      note n = cachedSendCommand_new [OF Some None, of cmd rest]
      have "wf_promises ?s'"
        using wp n(2) by (rule wf_promises_alloc) (simp add: open_promises_def n)
      moreover have "wf_rest ?s'"
        using wfr n(4) n(3) n(5)
        by (rule wf_rest_new [where f = "SendFrame c cmd k (length (promises s))"]) (simp_all add: n)
      moreover have "quiet ?s'" using q by (simp add: quiet_def n)
      ultimately show ?thesis unfolding args stable_def wf_def by blast
    next
      case (Some d)
      from wf_tables_entry [OF wfr q Some] have pend: "cell_at (deferreds s) d = None"
        by (simp add: cell_at_def)
      let ?s' = "s\<lparr>promises := promises s @ [None],
        awaiting_deferred := awaiting_deferred s @ [(d, SendFrame c cmd k (length (promises s)))]\<rparr>"
      have eq: "snd (cachedSendCommand c cmd args s) = ?s'"
        using cachedSendCommand_reuse [OF \<open>webview s = Some w\<close> Some pend] by (simp add: args)
      have "wf_promises ?s'"
        using wp by (rule wf_promises_alloc) (simp_all add: open_promises_def)
      moreover have "wf_rest ?s'"
        using wfr q Some
        by (rule wf_rest_reuse [where f = "SendFrame c cmd k (length (promises s))"])
           (simp_all add: cache_of_fields)
      moreover have "quiet ?s'" using q by (simp add: quiet_def)
      ultimately show ?thesis unfolding eq stable_def wf_def by blast
    qed
  qed
qed

lemma send_keys_EvalTask: "send_keys (ts @ [EvalTask f out]) = send_keys ts"
  by (simp add: send_keys_def)

lemma stable_await:
  assumes st: "stable s"
  shows "stable (then_promise p (EvalFrame e (length (promises s))) (s\<lparr>promises := promises s @ [None]\<rparr>))"
proof -
  let ?s2 = "s\<lparr>promises := promises s @ [None]\<rparr>"
  let ?s' = "then_promise p (EvalFrame e (length (promises s))) ?s2"
  from st have wp: "wf_promises s" and wfr: "wf_rest s" and q: "quiet s"
    by (simp_all add: stable_def wf_def)
  have pr: "promises ?s' = promises s @ [None]"
    by (simp add: then_promise_def split: option.splits)
  have op: "mset (open_promises ?s') = add_mset (length (promises s)) (mset (open_promises s))"
    by (simp add: then_promise_def open_promises_def task_promise_def split: option.splits)
  have k: "send_keys (microtasks ?s') = send_keys (microtasks s)"
    by (simp add: then_promise_def send_keys_EvalTask split: option.splits)
  have "wf_promises ?s'" using wp pr op by (rule wf_promises_alloc)
  moreover have "wf_rest ?s' = wf_rest s"
    using k by (intro wf_rest_cong) (simp_all add: then_promise_def cache_of_fields split: option.splits)
  moreover have "quiet ?s' = quiet s" using k by (simp add: quiet_def)
  ultimately show ?thesis using wfr q unfolding stable_def wf_def by blast
qed

lemma evaluateOnSelectedCallFrame_eq:
  "evaluateOnSelectedCallFrame e g s =
     (let r = cachedSendCommand ExpressionsInFlight ''evaluateOnSelectedCallFrame'' [JStr e, JStr g] s
      in (length (promises (snd r)),
          then_promise (fst r) (EvalFrame e (length (promises (snd r))))
            ((snd r)\<lparr>promises := promises (snd r) @ [None]\<rparr>)))"
  by (simp add: evaluateOnSelectedCallFrame_def new_promise_def Let_def split: prod.splits)

lemma runtimeEvaluate_eq:
  "runtimeEvaluate e s =
     (let r = cachedSendCommand ExpressionsInFlight ''runtimeEvaluate'' [JStr e] s
      in (length (promises (snd r)),
          then_promise (fst r) (EvalFrame e (length (promises (snd r))))
            ((snd r)\<lparr>promises := promises (snd r) @ [None]\<rparr>)))"
  by (simp add: runtimeEvaluate_def new_promise_def Let_def split: prod.splits)

lemma stable_evaluateOnSelectedCallFrame:
  "stable s \<Longrightarrow> stable (snd (evaluateOnSelectedCallFrame e g s))"
  by (simp add: evaluateOnSelectedCallFrame_eq Let_def stable_await stable_cachedSendCommand)

lemma stable_runtimeEvaluate:
  "stable s \<Longrightarrow> stable (snd (runtimeEvaluate e s))"
  by (simp add: runtimeEvaluate_eq Let_def stable_await stable_cachedSendCommand)

lemma stable_run_microtasks: "wf s \<Longrightarrow> stable (run_microtasks s)"
  by (simp add: stable_def wf_run_microtasks quiet_run_microtasks)

lemma stable_field_updates:
  assumes "stable s"
  shows "stable (setWebviewElement w s)" and "stable (cleanup s)"
proof -
  from assms have wp: "wf_promises s" and wfr: "wf_rest s" and q: "quiet s"
    by (simp_all add: stable_def wf_def)
  have a: "wf_promises (setWebviewElement w s)"
    using wp by (rule wf_promises_mono [where cells = "[]"])
                (simp_all add: setWebviewElement_def open_promises_def)
  have b: "wf_rest (setWebviewElement w s) = wf_rest s"
    by (rule wf_rest_cong) (simp_all add: setWebviewElement_def cache_of_fields)
  have c: "quiet (setWebviewElement w s) = quiet s"
    by (simp add: quiet_def setWebviewElement_def)
  from a b c wfr q show "stable (setWebviewElement w s)" unfolding stable_def wf_def by blast
  have a: "wf_promises (cleanup s)"
    using wp by (rule wf_promises_mono [where cells = "[]"])
                (simp_all add: cleanup_def open_promises_def)
  have b: "wf_rest (cleanup s) = wf_rest s"
    by (rule wf_rest_cong) (simp_all add: cleanup_def cache_of_fields)
  have c: "quiet (cleanup s) = quiet s"
    by (simp add: quiet_def cleanup_def)
  from a b c wfr q show "stable (cleanup s)" unfolding stable_def wf_def by blast
qed

lemma stable_handleDebuggerPaused:
  assumes "stable s"
  shows "stable (handleDebuggerPaused s)"
proof -
  from assms have wp: "wf_promises s" and wfr: "wf_rest s" and q: "quiet s"
    by (simp_all add: stable_def wf_def)
  have a: "wf_promises (handleDebuggerPaused s)"
    using wp by (rule wf_promises_mono [where cells = "[]"])
                (simp_all add: handleDebuggerPaused_def open_promises_def)
  have b: "wf_rest (handleDebuggerPaused s)"
    using wfr
  proof (rule wf_rest_shrink)
    fix c k d assume "cache_of (handleDebuggerPaused s) c k = Some d"
    then show "cache_of s c k = Some d"
      by (cases c) (simp_all add: handleDebuggerPaused_def cache_of_def)
  qed (simp_all add: handleDebuggerPaused_def)
  have c: "quiet (handleDebuggerPaused s) = quiet s"
    by (simp add: quiet_def handleDebuggerPaused_def)
  from a b c q show ?thesis unfolding stable_def wf_def by blast
qed

lemma wf_handleResponseForPendingRequest:
  "stable s \<Longrightarrow> wf (handleResponseForPendingRequest c resp key s)"
  by (simp add: handleResponseForPendingRequest_def Deferred_reject_def Deferred_resolve_def
        stable_def wf_settle_deferred split: option.splits)

lemma wf_handleIpcMessage: "stable s \<Longrightarrow> wf (handleIpcMessage n ev s)"
proof (cases ev)
  case NonLoaderDebuggerPaused
  assume "stable s"
  from stable_handleDebuggerPaused [OF this] NonLoaderDebuggerPaused show ?thesis
    by (simp add: handleIpcMessage_def stable_def)
next
  case (ExpressionEvaluationResponse r)
  assume "stable s"
  with ExpressionEvaluationResponse show ?thesis
    by (simp add: handleIpcMessage_def handleExpressionEvaluationResponse_def
          wf_handleResponseForPendingRequest)
next
  case (GetPropertiesResponse r)
  assume "stable s"
  with GetPropertiesResponse show ?thesis
    by (simp add: handleIpcMessage_def handleGetPropertiesResponse_def
          wf_handleResponseForPendingRequest)
qed

lemma stable_wf: "stable s \<Longrightarrow> wf s"
  by (simp add: stable_def)

lemma stable_on_ipc_message: "stable s \<Longrightarrow> stable (on_ipc_message n ev s)"
  by (simp add: on_ipc_message_def stable_run_microtasks wf_handleIpcMessage stable_wf)

lemma stable_step: "stable s \<Longrightarrow> stable (step n c s)"
  by (cases c)
     (simp_all add: step_def stable_field_updates stable_cachedSendCommand getProperties_def
        evaluateWatchExpression_def evaluateConsoleExpression_def
        stable_evaluateOnSelectedCallFrame stable_runtimeEvaluate stable_on_ipc_message
        stable_run_microtasks stable_wf)

lemma stable_exec: "stable s \<Longrightarrow> stable (exec n cs s)"
  by (induction cs arbitrary: s) (simp_all add: stable_step)

lemma stable_Bridge: "stable Bridge"
  by (simp add: stable_def wf_Bridge)

subsection \<open>The task of a response\<close>

lemma handleResponse_hit:
  "cache_of s c k = Some d \<Longrightarrow>
   handleResponseForPendingRequest c resp (JStr k) s = settle_deferred d (response_completion resp) s"
  by (simp add: handleResponseForPendingRequest_def map_get_def response_completion_def
        Deferred_reject_def Deferred_resolve_def)

lemma settle_deferred_pending:
  assumes "d < length (deferreds s)" and "deferreds s ! d = None"
  shows "deferreds (settle_deferred d out s) = (deferreds s)[d := Some out]"
    and "microtasks (settle_deferred d out s) = microtasks s @ map (\<lambda>f. SendTask f out) (waiting_on s d)"
    and "awaiting_deferred (settle_deferred d out s) = filter (\<lambda>w. fst w \<noteq> d) (awaiting_deferred s)"
    and "cache_of (settle_deferred d out s) = cache_of s"
    and "promises (settle_deferred d out s) = promises s"
    and "awaiting_promise (settle_deferred d out s) = awaiting_promise s"
    and "sent (settle_deferred d out s) = sent s"
    and "webview (settle_deferred d out s) = webview s"
    and "warnings (settle_deferred d out s) = warnings s"
    and "actions (settle_deferred d out s) = actions s"
    and "timeouts (settle_deferred d out s) = timeouts s"
  using assms by (simp_all add: settle_deferred_def waiting_on_def cache_of_fields)

lemma send_keys_waiting:
  "set (send_keys (map (\<lambda>f. SendTask f out) fs)) = (\<lambda>f. (sf_cache f, sf_value f)) ` set fs"
  by (induction fs) (auto simp add: send_keys_def)

lemma waiting_on_owner:
  assumes "wf_rest s" and "quiet s" and "cache_of s c k = Some d"
  shows "(\<lambda>f. (sf_cache f, sf_value f)) ` set (waiting_on s d) = {(c, k)}"
proof -
  from wf_tables_entry [OF assms] obtain f0 where
    f0: "(d, f0) \<in> set (awaiting_deferred s)" "sf_cache f0 = c" "sf_value f0 = k" by blast
  from assms(1) have o: "\<And>f. (d, f) \<in> set (awaiting_deferred s) \<Longrightarrow> sf_cache f = c \<and> sf_value f = k"
    using assms(3) by (simp add: wf_rest_def wf_owner_def)
  have "f0 \<in> set (waiting_on s d)" using f0(1) by (force simp add: waiting_on_def)
  moreover have "\<And>f. f \<in> set (waiting_on s d) \<Longrightarrow> sf_cache f = c \<and> sf_value f = k"
    using o by (auto simp add: waiting_on_def)
  ultimately show ?thesis using f0 by (auto simp add: image_iff)
qed

text \<open>The task of a response that finds a waiter: the handler settles the deferred,
  the jobs delete the entry and resolve the promise of every call that waited.\<close>

lemma deliver_task:
  fixes resp :: response
  assumes st: "stable s" and e: "cache_of s c k = Some d"
    and out_def: "out = response_completion resp"
    and s'_def: "s' = run_microtasks (handleResponseForPendingRequest c resp (JStr k) s)"
  shows "cache_of s' c' k' = (if c' = c \<and> k' = k then None else cache_of s c' k')"
    and "deferreds s' = (deferreds s)[d := Some out]"
    and "awaiting_deferred s' = filter (\<lambda>w. fst w \<noteq> d) (awaiting_deferred s)"
    and "warnings s' = warnings s @ send_warnings (map (\<lambda>f. SendTask f out) (waiting_on s d))"
    and "sent s' = sent s" and "webview s' = webview s"
    and "f \<in> set (waiting_on s d) \<Longrightarrow> cell_at (promises s') (sf_promise f) = Some (Fulfilled (send_result out))"
    and "f \<in> set (waiting_on s d) \<Longrightarrow> (sf_promise f, g) \<in> set (awaiting_promise s) \<Longrightarrow>
           cell_at (promises s') (ef_promise g) = Some (task_outcome (EvalTask g (Fulfilled (send_result out))))"
    and "d < length (deferreds s)"
proof -
  let ?s1 = "settle_deferred d out s"
  from st have wfr: "wf_rest s" and q: "quiet s" and w: "wf s" by (simp_all add: stable_def wf_def)
  from wf_tables_entry [OF wfr q e] have p: "d < length (deferreds s)" "deferreds s ! d = None" by simp_all
  note f1 = settle_deferred_pending [OF p, of out]
  have s': "s' = run_microtasks ?s1" by (simp add: s'_def out_def handleResponse_hit [OF e])
  from q have qs: "send_keys (microtasks s) = []" by (simp add: quiet_def)
  have keys: "set (send_keys (microtasks ?s1)) = {(c, k)}"
    by (simp add: f1 send_keys_append qs send_keys_waiting waiting_on_owner [OF wfr q e])
  show "cache_of s' c' k' = (if c' = c \<and> k' = k then None else cache_of s c' k')"
    by (simp add: s' run_microtasks_cache keys f1(4))
  show "deferreds s' = (deferreds s)[d := Some out]"
    using run_microtasks_frame [of ?s1] by (simp add: s' f1)
  show "awaiting_deferred s' = filter (\<lambda>w. fst w \<noteq> d) (awaiting_deferred s)"
    using run_microtasks_frame [of ?s1] by (simp add: s' f1)
  have "send_warnings (microtasks s) = []"
    using qs by (induction "microtasks s") (auto simp add: send_warnings_def send_keys_def split: microtask.splits)
  then show "warnings s' = warnings s @ send_warnings (map (\<lambda>f. SendTask f out) (waiting_on s d))"
    by (simp add: s' run_microtasks_warnings f1 send_warnings_def)
  show "sent s' = sent s" "webview s' = webview s"
    using run_microtasks_frame [of ?s1] by (simp_all add: s' f1)
  have wp: "wf_promises ?s1" using wf_settle_deferred [OF w q, of d out] by (simp add: wf_def)
  show "d < length (deferreds s)" by (rule p)
  {
    assume f: "f \<in> set (waiting_on s d)"
    then have t: "SendTask f out \<in> set (microtasks ?s1)" by (simp add: f1)
    from run_microtasks_task [OF wp t]
    show "cell_at (promises s') (sf_promise f) = Some (Fulfilled (send_result out))"
      by (simp add: s' task_promise_def task_outcome_def)
    assume "(sf_promise f, g) \<in> set (awaiting_promise s)"
    then have "(task_promise (SendTask f out), g) \<in> set (awaiting_promise ?s1)"
      by (simp add: f1 task_promise_def)
    from run_microtasks_awaiting [OF wp t this]
    show "cell_at (promises s') (ef_promise g) = Some (task_outcome (EvalTask g (Fulfilled (send_result out))))"
      by (simp add: s' task_outcome_def)
  }
qed

lemma stable_reachable: "stable (exec n cs Bridge)"
  by (rule stable_exec [OF stable_Bridge])

lemma waiting_on_filter:
  "d' \<noteq> d \<Longrightarrow> filter (\<lambda>w. fst w \<noteq> d \<and> fst w = d') ws = filter (\<lambda>w. fst w = d') ws"
  by (induction ws) auto

lemma waiting_promise_pending:
  assumes "wf_promises s" and "f \<in> set (waiting_on s d)"
  shows "cell_at (promises s) (sf_promise f) = None"
proof -
  from assms(2) have "sf_promise f \<in> set (open_promises s)"
    by (force simp add: waiting_on_def open_promises_def)
  with assms(1) show ?thesis by (simp add: wf_promises_def cell_at_def)
qed

lemmas eval_defs = step_def setWebviewElement_def cleanup_def getProperties_def
  evaluateWatchExpression_def evaluateConsoleExpression_def evaluateOnSelectedCallFrame_def
  runtimeEvaluate_def cachedSendCommand_def Bridge_def cache_of_def cache_update_def
  new_Deferred_def new_promise_def webview_send_def then_deferred_def then_promise_def cell_at_def

lemma handleResponse_twice:
  "handleResponseForPendingRequest c resp2 key (handleResponseForPendingRequest c resp key s)
     = handleResponseForPendingRequest c resp key s"
proof (cases "map_get (cache_of s c) key")
  case None
  then show ?thesis by (simp add: handleResponseForPendingRequest_def)
next
  case (Some d)
  have 1: "handleResponseForPendingRequest c r key u = settle_deferred d (response_completion r) u"
    if "cache_of u = cache_of s" for r u
    using Some that
    by (simp add: handleResponseForPendingRequest_def response_completion_def
          Deferred_reject_def Deferred_resolve_def)
  have 2: "cache_of (settle_deferred d out s) = cache_of s" for out
    by (simp add: settle_deferred_def cache_of_fields)
  have 3: "settle_deferred d out2 (settle_deferred d out s) = settle_deferred d out s" for out out2
    by (simp add: settle_deferred_def)
  show ?thesis by (simp add: 1 2 3)
qed

lemma cachedSendCommand_pending:
  assumes "stable s" and "webview s = Some w" and "cache_of s c k = Some d"
  shows "cachedSendCommand c cmd (JStr k # rest) s =
     (length (promises s),
      s\<lparr>promises := promises s @ [None],
        awaiting_deferred := awaiting_deferred s @ [(d, SendFrame c cmd k (length (promises s)))]\<rparr>)"
proof -
  from assms(1) have "wf_rest s" "quiet s" by (simp_all add: stable_def wf_def)
  from wf_tables_entry [OF this assms(3)] have "cell_at (deferreds s) d = None"
    by (simp add: cell_at_def)
  with assms(2,3) show ?thesis by (rule cachedSendCommand_reuse)
qed

lemma waiting_on_fresh:
  assumes "wf_rest s"
  shows "waiting_on s (length (deferreds s)) = []"
proof -
  from assms have "\<And>w. w \<in> set (awaiting_deferred s) \<Longrightarrow> fst w < length (deferreds s)"
    by (simp add: wf_rest_def wf_frames_def)
  then have "\<And>w. w \<in> set (awaiting_deferred s) \<Longrightarrow> fst w \<noteq> length (deferreds s)" by fastforce
  then show ?thesis by (simp add: waiting_on_def filter_empty_conv)
qed

subsection \<open>One waiter for a key\<close>

lemma single_cong:
  "cache_of s' = cache_of s \<Longrightarrow> awaiting_deferred s' = awaiting_deferred s \<Longrightarrow> single s' = single s"
  by (simp add: single_def)

lemma single_cachedSendCommand:
  assumes st: "stable s" and si: "single s"
  shows "single (snd (cachedSendCommand c cmd args s))"
proof (cases "webview s")
  case None
  have "single (s\<lparr>promises := promises s @ [Some (Fulfilled JNull)]\<rparr>) = single s"
    by (rule single_cong) (simp_all add: cache_of_fields)
  with si None show ?thesis by (simp add: cachedSendCommand_disconnected)
next
  case (Some w)
  show ?thesis
  proof (cases "\<exists>k rest. args = JStr k # rest")
    case False
    then have "\<And>k rest. args \<noteq> JStr k # rest" by simp
    note eq = cachedSendCommand_assert [OF Some this]
    have "single (s\<lparr>promises := promises s @ [Some (Rejected AssertionError)]\<rparr>) = single s"
      by (rule single_cong) (simp_all add: cache_of_fields)
    with si show ?thesis by (simp add: eq)
  next
    case True
    then obtain k rest where args: "args = JStr k # rest" by blast
    show ?thesis
    proof (cases "cache_of s c k")
      case None
      note n = cachedSendCommand_new [OF Some None, of cmd rest]
      have "\<And>w. w \<in> set (awaiting_deferred s) \<Longrightarrow>
          (sf_cache (snd w), sf_value (snd w)) \<noteq> (c, k)"
        using si None by (auto simp add: single_def)
      with si show ?thesis
        unfolding args single_def by (auto simp add: n)
    next
      case (Some d)
      note eq = cachedSendCommand_pending [OF st \<open>webview s = Some w\<close> Some, of cmd rest]
      from si Some show ?thesis
        unfolding args single_def by (simp add: eq cache_of_fields)
    qed
  qed
qed

lemma single_await:
  "single (then_promise p f (s\<lparr>promises := x\<rparr>)) = single s"
  by (rule single_cong) (simp_all add: then_promise_def cache_of_fields split: option.splits)

lemma single_evaluate:
  assumes "stable s" and "single s"
  shows "single (snd (evaluateOnSelectedCallFrame e g s))" and "single (snd (runtimeEvaluate e s))"
  using assms
  by (simp_all add: evaluateOnSelectedCallFrame_eq runtimeEvaluate_eq Let_def single_await
        single_cachedSendCommand)

lemma single_run_microtasks:
  assumes "quiet s"
  shows "single (run_microtasks s) = single s"
proof (rule single_cong)
  show "cache_of (run_microtasks s) = cache_of s"
    using assms by (intro ext) (simp add: run_microtasks_cache quiet_def)
  show "awaiting_deferred (run_microtasks s) = awaiting_deferred s"
    by (simp add: run_microtasks_frame)
qed

lemma single_deliver:
  assumes st: "stable s" and si: "single s"
  shows "single (run_microtasks (handleResponseForPendingRequest c resp key s))"
proof (cases "map_get (cache_of s c) key")
  case None
  then have "handleResponseForPendingRequest c resp key s = s"
    by (simp add: handleResponseForPendingRequest_def)
  with st si show ?thesis by (simp add: single_run_microtasks stable_def)
next
  case (Some d)
  then obtain k where key: "key = JStr k" and e: "cache_of s c k = Some d"
    by (cases key) (simp_all add: map_get_def)
  note t = deliver_task [OF st e refl refl]
  show ?thesis
    unfolding key single_def
  proof
    fix w
    assume "w \<in> set (awaiting_deferred
        (run_microtasks (handleResponseForPendingRequest c resp (JStr k) s)))"
    then have w: "w \<in> set (awaiting_deferred s)" and ne: "fst w \<noteq> d" by (simp_all add: t(3))
    from si w have c: "cache_of s (sf_cache (snd w)) (sf_value (snd w)) = Some (fst w)"
      by (simp add: single_def)
    with e ne have "\<not> (sf_cache (snd w) = c \<and> sf_value (snd w) = k)" by auto
    with c show "cache_of (run_microtasks (handleResponseForPendingRequest c resp (JStr k) s))
        (sf_cache (snd w)) (sf_value (snd w)) = Some (fst w)"
      by (simp add: t(1))
  qed
qed

lemma single_step:
  assumes st: "stable s" and si: "single s" and np: "c \<noteq> IpcMessage NonLoaderDebuggerPaused"
  shows "single (step n c s)"
proof (cases c)
  case (SetWebviewElement w)
  have "single (setWebviewElement w s) = single s"
    by (rule single_cong) (simp_all add: setWebviewElement_def cache_of_fields)
  with si SetWebviewElement show ?thesis by (simp add: step_def)
next
  case Cleanup
  have "single (cleanup s) = single s"
    by (rule single_cong) (simp_all add: cleanup_def cache_of_fields)
  with si Cleanup show ?thesis by (simp add: step_def)
next
  case (CachedSendCommand x1 x2 x3)
  with st si show ?thesis by (simp add: step_def single_cachedSendCommand)
next
  case (GetProperties x)
  with st si show ?thesis by (simp add: step_def getProperties_def single_cachedSendCommand)
next
  case (EvaluateWatchExpression x)
  with st si show ?thesis by (simp add: step_def evaluateWatchExpression_def single_evaluate)
next
  case (EvaluateConsoleExpression x1 x2)
  with st si show ?thesis by (simp add: step_def evaluateConsoleExpression_def single_evaluate)
next
  case (IpcMessage ev)
  let ?s0 = "run_microtasks s"
  from st have st0: "stable ?s0" by (simp add: stable_run_microtasks stable_wf)
  from st si have si0: "single ?s0" by (simp add: single_run_microtasks stable_def)
  from IpcMessage np have "ev \<noteq> NonLoaderDebuggerPaused" by simp
  then show ?thesis
    using single_deliver [OF st0 si0] IpcMessage
    by (cases ev)
       (simp_all add: step_def on_ipc_message_def handleIpcMessage_def
          handleExpressionEvaluationResponse_def handleGetPropertiesResponse_def)
next
  case Checkpoint
  with st si show ?thesis by (simp add: step_def single_run_microtasks stable_def)
qed

lemma single_exec:
  "stable s \<Longrightarrow> single s \<Longrightarrow> IpcMessage NonLoaderDebuggerPaused \<notin> set cs \<Longrightarrow> single (exec n cs s)"
proof (induction cs arbitrary: s)
  case Nil
  then show ?case by simp
next
  case (Cons c cs)
  from Cons.prems have "single (step n c s)" "stable (step n c s)"
    by (auto simp add: single_step stable_step)
  with Cons show ?case by simp
qed

lemma single_Bridge: "single Bridge"
  by (simp add: single_def Bridge_def)

text \<open>A pause notification between two requests for one expression leaves two waiters:
  the first is no longer in the table and the second request does not find it.\<close>

lemma pause_orphans_waiter:
  "pending_waiters (exec id [SetWebviewElement 0, EvaluateWatchExpression ''x'',
      IpcMessage NonLoaderDebuggerPaused, EvaluateWatchExpression ''x''] Bridge)
      ExpressionsInFlight ''x'' = [0, 1]"
  by (simp add: eval_defs pending_waiters_def on_ipc_message_def handleIpcMessage_def
        handleDebuggerPaused_def run_microtasks_Nil)

subsection \<open>Calls with a webview attached, and evaluations\<close>

text \<open>A call with a webview attached and a string as the key is suspended on the
  deferred stored under the key, whether it has created it or found it.\<close>

lemma cachedSendCommand_connected:
  assumes st: "stable s" and w: "webview s = Some w"
    and r: "cachedSendCommand c cmd (JStr k # rest) s = (p, s1)"
  shows "p = length (promises s) \<and> promises s1 = promises s @ [None] \<and>
      microtasks s1 = microtasks s \<and> awaiting_promise s1 = awaiting_promise s \<and>
      warnings s1 = warnings s \<and> webview s1 = webview s \<and>
      (\<exists>d. cache_of s1 c k = Some d
           \<and> awaiting_deferred s1 = awaiting_deferred s @ [(d, SendFrame c cmd k p)]
           \<and> d < length (deferreds s1) \<and> deferreds s1 ! d = None)"
proof (cases "cache_of s c k")
  case None
  note n = cachedSendCommand_new [OF w None, of cmd rest, unfolded r, simplified]
  show ?thesis by (simp add: n)
next
  case (Some d)
  from st have wfr: "wf_rest s" and q: "quiet s" by (simp_all add: stable_def wf_def)
  note eq = cachedSendCommand_pending [OF st w Some, of cmd rest, unfolded r, simplified]
  from wf_tables_entry [OF wfr q Some] have "d < length (deferreds s)" "deferreds s ! d = None"
    by simp_all
  with Some eq show ?thesis by (simp add: cache_of_fields)
qed

lemma evaluate_with_eqs:
  "evaluateOnSelectedCallFrame e g = evaluate_with ''evaluateOnSelectedCallFrame'' [JStr g] e"
  "runtimeEvaluate e = evaluate_with ''runtimeEvaluate'' [] e"
  "evaluateWatchExpression e = evaluate_with ''evaluateOnSelectedCallFrame'' [JStr ''watch-group''] e"
  "evaluateConsoleExpression mode e =
     (if mode = ''paused'' then evaluate_with ''evaluateOnSelectedCallFrame'' [JStr ''console''] e
      else evaluate_with ''runtimeEvaluate'' [] e)"
  by (auto simp add: evaluate_with_def evaluateOnSelectedCallFrame_eq runtimeEvaluate_eq
        evaluateWatchExpression_def evaluateConsoleExpression_def fun_eq_iff)

lemma evaluate_with_disconnected:
  assumes st: "stable s" and w: "webview s = None" and r: "evaluate_with cmd rest e s = (q, s1)"
  shows "cell_at (promises (run_microtasks s1)) q = Some (Fulfilled (failed_to_evaluate e))"
proof -
  let ?s0 = "s\<lparr>promises := promises s @ [Some (Fulfilled JNull)]\<rparr>"
  from r w have q: "q = Suc (length (promises s))"
    and s1: "s1 = then_promise (length (promises s)) (EvalFrame e q)
        (?s0\<lparr>promises := promises ?s0 @ [None]\<rparr>)"
    by (auto simp add: evaluate_with_def cachedSendCommand_disconnected Let_def)
  have "stable ?s0" using st by (rule stable_promises_append)
  from stable_await [OF this, of "length (promises s)" e] have "stable s1"
    by (simp add: s1 q)
  then have wp: "wf_promises s1" by (simp add: stable_def wf_def)
  have "EvalTask (EvalFrame e q) (Fulfilled JNull) \<in> set (microtasks s1)"
    by (simp add: s1 then_promise_def cell_at_def nth_append)
  from run_microtasks_task [OF wp this] show ?thesis
    by (simp add: task_promise_def task_outcome_def is_nullish_def)
qed

lemma evaluate_with_connected:
  fixes resp :: response
  assumes st: "stable s" and w: "webview s = Some w" and r: "evaluate_with cmd rest e s = (q, s1)"
  shows "cell_at (promises (run_microtasks
             (handleResponseForPendingRequest ExpressionsInFlight resp (JStr e) s1))) q
           = Some (task_outcome (EvalTask (EvalFrame e q)
                (Fulfilled (send_result (response_completion resp)))))"
proof -
  obtain p s0 where r0: "cachedSendCommand ExpressionsInFlight cmd (JStr e # rest) s = (p, s0)"
    by (cases "cachedSendCommand ExpressionsInFlight cmd (JStr e # rest) s")
  note c = cachedSendCommand_connected [OF st w r0]
  from stable_cachedSendCommand [OF st, of ExpressionsInFlight cmd "JStr e # rest"]
  have st0: "stable s0" by (simp add: r0)
  from r r0 have q: "q = length (promises s0)"
    and s1: "s1 = then_promise p (EvalFrame e q) (s0\<lparr>promises := promises s0 @ [None]\<rparr>)"
    by (auto simp add: evaluate_with_def Let_def)
  from stable_await [OF st0, of p e] have st1: "stable s1" by (simp add: s1 q)
  from c have "cell_at (promises s0 @ [None]) p = None"
    by (simp add: cell_at_def nth_append)
  then have s1': "s1 = s0\<lparr>promises := promises s0 @ [None],
      awaiting_promise := awaiting_promise s0 @ [(p, EvalFrame e q)]\<rparr>"
    by (simp add: s1 then_promise_def)
  from c obtain d where d: "cache_of s0 ExpressionsInFlight e = Some d"
    "awaiting_deferred s0 = awaiting_deferred s @ [(d, SendFrame ExpressionsInFlight cmd e p)]"
    by blast
  have e1: "cache_of s1 ExpressionsInFlight e = Some d" by (simp add: s1' cache_of_fields d)
  have f: "SendFrame ExpressionsInFlight cmd e p \<in> set (waiting_on s1 d)"
    by (simp add: s1' waiting_on_def d)
  have g: "(sf_promise (SendFrame ExpressionsInFlight cmd e p), EvalFrame e q) \<in> set (awaiting_promise s1)"
    by (simp add: s1')
  from deliver_task(8) [OF st1 e1 refl refl f g, of resp] show ?thesis
    by simp
qed

subsection \<open>A promise of a call is never rejected\<close>








text \<open>A call changes the promises by appending one cell, and suspends no call less.\<close>

lemma cachedSendCommand_grows:
  assumes "stable s"
  shows "\<exists>cell. promises (snd (cachedSendCommand c cmd args s)) = promises s @ [cell]"
    and "set (awaiting_deferred s) \<subseteq> set (awaiting_deferred (snd (cachedSendCommand c cmd args s)))"
proof -
  have "(\<exists>cell. promises (snd (cachedSendCommand c cmd args s)) = promises s @ [cell])
      \<and> set (awaiting_deferred s) \<subseteq> set (awaiting_deferred (snd (cachedSendCommand c cmd args s)))"
  proof (cases "webview s")
    case None
    then show ?thesis by (simp add: cachedSendCommand_disconnected)
  next
    case (Some w)
    show ?thesis
    proof (cases "\<exists>k rest. args = JStr k # rest")
      case False
      then have "\<And>k rest. args \<noteq> JStr k # rest" by simp
      from cachedSendCommand_assert [OF Some this] show ?thesis by simp
    next
      case True
      then obtain k rest where args: "args = JStr k # rest" by blast
      obtain p s1 where r: "cachedSendCommand c cmd (JStr k # rest) s = (p, s1)"
        by (cases "cachedSendCommand c cmd (JStr k # rest) s")
      from cachedSendCommand_connected [OF assms Some r] show ?thesis
        unfolding args r by auto
    qed
  qed
  then show "\<exists>cell. promises (snd (cachedSendCommand c cmd args s)) = promises s @ [cell]"
    and "set (awaiting_deferred s) \<subseteq> set (awaiting_deferred (snd (cachedSendCommand c cmd args s)))"
    by simp_all
qed










subsection \<open>Calls stay suspended until their waiter settles\<close>

lemma still_waiting_mono:
  assumes "still_waiting s d f" and "set (awaiting_deferred s) \<subseteq> set (awaiting_deferred s')"
    and "deferreds s' = deferreds s @ xs"
  shows "still_waiting s' d f"
  using assms unfolding still_waiting_def
  by (auto simp add: cell_at_def nth_append split: if_splits)

lemma cachedSendCommand_deferreds:
  assumes "stable s"
  shows "\<exists>xs. deferreds (snd (cachedSendCommand c cmd args s)) = deferreds s @ xs"
proof (cases "webview s")
  case None
  then show ?thesis by (simp add: cachedSendCommand_disconnected)
next
  case (Some w)
  show ?thesis
  proof (cases "\<exists>k rest. args = JStr k # rest")
    case False
    then have "\<And>k rest. args \<noteq> JStr k # rest" by simp
    from cachedSendCommand_assert [OF Some this] show ?thesis by simp
  next
    case True
    then obtain k rest where args: "args = JStr k # rest" by blast
    show ?thesis
    proof (cases "cache_of s c k")
      case None
      from cachedSendCommand_new(3) [OF Some None, of cmd rest] show ?thesis
        unfolding args by blast
    next
      case (Some d)
      from cachedSendCommand_pending [OF assms \<open>webview s = Some w\<close> Some, of cmd rest]
      show ?thesis unfolding args by simp
    qed
  qed
qed

lemma still_waiting_cachedSendCommand:
  assumes "stable s" and "still_waiting s d f"
  shows "still_waiting (snd (cachedSendCommand c cmd args s)) d f"
proof -
  from cachedSendCommand_deferreds [OF assms(1), of c cmd args] obtain xs where
    "deferreds (snd (cachedSendCommand c cmd args s)) = deferreds s @ xs" by blast
  with assms(2) cachedSendCommand_grows(2) [OF assms(1), of c cmd args] show ?thesis
    by (rule still_waiting_mono)
qed

lemma still_waiting_await:
  assumes "still_waiting s d f"
  shows "still_waiting (then_promise a g (s\<lparr>promises := x\<rparr>)) d f"
  using assms
  by (rule still_waiting_mono [where xs = "[]"]) (simp_all add: then_promise_def split: option.splits)

lemma still_waiting_evaluate:
  assumes "stable s" and "still_waiting s d f"
  shows "still_waiting (snd (evaluateOnSelectedCallFrame e g s)) d f"
    and "still_waiting (snd (runtimeEvaluate e s)) d f"
  using assms
  by (simp_all add: evaluateOnSelectedCallFrame_eq runtimeEvaluate_eq Let_def
        still_waiting_await still_waiting_cachedSendCommand)

lemma still_waiting_run_microtasks:
  assumes "still_waiting s d f"
  shows "still_waiting (run_microtasks s) d f"
  using assms
  by (rule still_waiting_mono [where xs = "[]"]) (simp_all add: run_microtasks_frame)

lemma still_waiting_deliver:
  assumes st: "stable s" and u: "still_waiting s d f"
  shows "still_waiting (run_microtasks (handleResponseForPendingRequest c resp key s)) d f"
proof (cases "map_get (cache_of s c) key")
  case None
  then have "handleResponseForPendingRequest c resp key s = s"
    by (simp add: handleResponseForPendingRequest_def)
  with u show ?thesis by (simp add: still_waiting_run_microtasks)
next
  case (Some d0)
  then obtain k where key: "key = JStr k" and e: "cache_of s c k = Some d0"
    by (cases key) (simp_all add: map_get_def)
  note t = deliver_task [OF st e refl refl]
  show ?thesis
  proof (cases "d = d0")
    case True
    with t(9) show ?thesis
      unfolding key still_waiting_def by (simp add: t(2) cell_at_def)
  next
    case False
    with u show ?thesis
      unfolding key still_waiting_def by (auto simp add: t(2,3) cell_at_def)
  qed
qed

lemma still_waiting_step:
  assumes st: "stable s" and u: "still_waiting s d f"
  shows "still_waiting (step n c s) d f"
proof (cases c)
  case (SetWebviewElement w)
  from u have "still_waiting (setWebviewElement w s) d f"
    by (rule still_waiting_mono [where xs = "[]"]) (simp_all add: setWebviewElement_def)
  with SetWebviewElement show ?thesis by (simp add: step_def)
next
  case Cleanup
  from u have "still_waiting (cleanup s) d f"
    by (rule still_waiting_mono [where xs = "[]"]) (simp_all add: cleanup_def)
  with Cleanup show ?thesis by (simp add: step_def)
next
  case (CachedSendCommand x1 x2 x3)
  with st u show ?thesis by (simp add: step_def still_waiting_cachedSendCommand)
next
  case (GetProperties x)
  with st u show ?thesis by (simp add: step_def getProperties_def still_waiting_cachedSendCommand)
next
  case (EvaluateWatchExpression x)
  with st u show ?thesis by (simp add: step_def evaluateWatchExpression_def still_waiting_evaluate)
next
  case (EvaluateConsoleExpression x1 x2)
  with st u show ?thesis by (simp add: step_def evaluateConsoleExpression_def still_waiting_evaluate)
next
  case (IpcMessage ev)
  let ?s0 = "run_microtasks s"
  from st have st0: "stable ?s0" by (simp add: stable_run_microtasks stable_wf)
  from u have u0: "still_waiting ?s0 d f" by (rule still_waiting_run_microtasks)
  show ?thesis
  proof (cases ev)
    case NonLoaderDebuggerPaused
    from u0 have "still_waiting (handleDebuggerPaused ?s0) d f"
      by (rule still_waiting_mono [where xs = "[]"]) (simp_all add: handleDebuggerPaused_def)
    then have "still_waiting (run_microtasks (handleDebuggerPaused ?s0)) d f"
      by (rule still_waiting_run_microtasks)
    with IpcMessage NonLoaderDebuggerPaused show ?thesis
      by (simp add: step_def on_ipc_message_def handleIpcMessage_def)
  next
    case (ExpressionEvaluationResponse r)
    with IpcMessage still_waiting_deliver [OF st0 u0] show ?thesis
      by (simp add: step_def on_ipc_message_def handleIpcMessage_def
            handleExpressionEvaluationResponse_def)
  next
    case (GetPropertiesResponse r)
    with IpcMessage still_waiting_deliver [OF st0 u0] show ?thesis
      by (simp add: step_def on_ipc_message_def handleIpcMessage_def
            handleGetPropertiesResponse_def)
  qed
next
  case Checkpoint
  with u show ?thesis by (simp add: step_def still_waiting_run_microtasks)
qed

lemma still_waiting_exec: "stable s \<Longrightarrow> still_waiting s d f \<Longrightarrow> still_waiting (exec n cs s) d f"
proof (induction cs arbitrary: s)
  case Nil
  then show ?case by simp
next
  case (Cons c cs)
  from Cons.prems have "still_waiting (step n c s) d f" "stable (step n c s)"
    by (simp_all add: still_waiting_step stable_step)
  with Cons.IH show ?case by simp
qed

subsection \<open>Waiters that no table holds\<close>

lemma abandoned_mono:
  assumes "abandoned s d" and "deferreds s' = deferreds s @ xs"
    and "\<And>c k. cache_of s' c k = Some d \<Longrightarrow> cache_of s c k = Some d"
  shows "abandoned s' d"
  using assms unfolding abandoned_def by (auto simp add: nth_append)

lemma waiting_on_append:
  "awaiting_deferred s' = awaiting_deferred s @ [(d0, f)] \<Longrightarrow> d0 \<noteq> d \<Longrightarrow>
   waiting_on s' d = waiting_on s d"
  by (simp add: waiting_on_def)

lemma waiting_on_same:
  "awaiting_deferred s' = awaiting_deferred s \<Longrightarrow> waiting_on s' d = waiting_on s d"
  by (simp add: waiting_on_def)

lemma abandoned_cachedSendCommand:
  assumes st: "stable s" and ab: "abandoned s d"
  shows "abandoned (snd (cachedSendCommand c cmd args s)) d
       \<and> waiting_on (snd (cachedSendCommand c cmd args s)) d = waiting_on s d"
proof (cases "webview s")
  case None
  have "abandoned (s\<lparr>promises := promises s @ [Some (Fulfilled JNull)]\<rparr>) d"
    using ab by (rule abandoned_mono [where xs = "[]"]) (simp_all add: cache_of_fields)
  with None show ?thesis by (simp add: cachedSendCommand_disconnected waiting_on_def)
next
  case (Some w)
  show ?thesis
  proof (cases "\<exists>k rest. args = JStr k # rest")
    case False
    then have "\<And>k rest. args \<noteq> JStr k # rest" by simp
    note eq = cachedSendCommand_assert [OF Some this]
    have "abandoned (s\<lparr>promises := promises s @ [Some (Rejected AssertionError)]\<rparr>) d"
      using ab by (rule abandoned_mono [where xs = "[]"]) (simp_all add: cache_of_fields)
    then show ?thesis by (simp add: eq waiting_on_def)
  next
    case True
    then obtain k rest where args: "args = JStr k # rest" by blast
    show ?thesis
    proof (cases "cache_of s c k")
      case None
      note n = cachedSendCommand_new [OF Some None, of cmd rest]
      from ab have ne: "length (deferreds s) \<noteq> d" by (auto simp add: abandoned_def)
      have "abandoned (snd (cachedSendCommand c cmd (JStr k # rest) s)) d"
        using ab n(3)
      proof (rule abandoned_mono)
        fix c' k' assume "cache_of (snd (cachedSendCommand c cmd (JStr k # rest) s)) c' k' = Some d"
        with ne show "cache_of s c' k' = Some d" by (auto simp add: n(4) split: if_splits)
      qed
      moreover have "waiting_on (snd (cachedSendCommand c cmd (JStr k # rest) s)) d = waiting_on s d"
        using n(5) ne by (rule waiting_on_append)
      ultimately show ?thesis unfolding args by simp
    next
      case (Some d0)
      note eq = cachedSendCommand_pending [OF st \<open>webview s = Some w\<close> Some, of cmd rest]
      from ab Some have ne: "d0 \<noteq> d" by (auto simp add: abandoned_def)
      have "abandoned (snd (cachedSendCommand c cmd (JStr k # rest) s)) d"
        using ab by (rule abandoned_mono [where xs = "[]"]) (simp_all add: eq cache_of_fields)
      moreover have "waiting_on (snd (cachedSendCommand c cmd (JStr k # rest) s)) d = waiting_on s d"
        using ne by (simp add: eq waiting_on_def)
      ultimately show ?thesis unfolding args by simp
    qed
  qed
qed

lemma abandoned_await:
  assumes "abandoned s d"
  shows "abandoned (then_promise a g (s\<lparr>promises := x\<rparr>)) d
       \<and> waiting_on (then_promise a g (s\<lparr>promises := x\<rparr>)) d = waiting_on s d"
proof -
  have "abandoned (then_promise a g (s\<lparr>promises := x\<rparr>)) d"
    using assms
    by (rule abandoned_mono [where xs = "[]"])
       (simp_all add: then_promise_def cache_of_fields split: option.splits)
  moreover have "waiting_on (then_promise a g (s\<lparr>promises := x\<rparr>)) d = waiting_on s d"
    by (rule waiting_on_same) (simp add: then_promise_def split: option.splits)
  ultimately show ?thesis by simp
qed

lemma abandoned_evaluate:
  assumes "stable s" and "abandoned s d"
  shows "abandoned (snd (evaluateOnSelectedCallFrame e g s)) d
       \<and> waiting_on (snd (evaluateOnSelectedCallFrame e g s)) d = waiting_on s d"
    and "abandoned (snd (runtimeEvaluate e s)) d
       \<and> waiting_on (snd (runtimeEvaluate e s)) d = waiting_on s d"
  using abandoned_cachedSendCommand [OF assms]
  by (simp_all add: evaluateOnSelectedCallFrame_eq runtimeEvaluate_eq Let_def abandoned_await)

lemma abandoned_run_microtasks:
  assumes "abandoned s d"
  shows "abandoned (run_microtasks s) d \<and> waiting_on (run_microtasks s) d = waiting_on s d"
proof -
  have "abandoned (run_microtasks s) d"
    using assms
  proof (rule abandoned_mono [where xs = "[]"])
    show "deferreds (run_microtasks s) = deferreds s @ []" by (simp add: run_microtasks_frame)
    fix c k assume "cache_of (run_microtasks s) c k = Some d"
    then show "cache_of s c k = Some d" by (simp add: run_microtasks_cache split: if_splits)
  qed
  moreover have "waiting_on (run_microtasks s) d = waiting_on s d"
    by (rule waiting_on_same) (simp add: run_microtasks_frame)
  ultimately show ?thesis by simp
qed

lemma abandoned_deliver:
  assumes st: "stable s" and ab: "abandoned s d"
  shows "abandoned (run_microtasks (handleResponseForPendingRequest c resp key s)) d
       \<and> waiting_on (run_microtasks (handleResponseForPendingRequest c resp key s)) d = waiting_on s d"
proof (cases "map_get (cache_of s c) key")
  case None
  then have "handleResponseForPendingRequest c resp key s = s"
    by (simp add: handleResponseForPendingRequest_def)
  with ab show ?thesis by (simp add: abandoned_run_microtasks)
next
  case (Some d0)
  then obtain k where key: "key = JStr k" and e: "cache_of s c k = Some d0"
    by (cases key) (simp_all add: map_get_def)
  note t = deliver_task [OF st e refl refl]
  from ab e have ne: "d \<noteq> d0" by (auto simp add: abandoned_def)
  have "abandoned (run_microtasks (handleResponseForPendingRequest c resp (JStr k) s)) d"
    using ab ne unfolding abandoned_def by (simp add: t(1,2))
  moreover have "waiting_on (run_microtasks (handleResponseForPendingRequest c resp (JStr k) s)) d
      = waiting_on s d"
    using ne by (simp add: waiting_on_def t(3) waiting_on_filter)
  ultimately show ?thesis by (simp add: key)
qed

lemma abandoned_handleDebuggerPaused:
  assumes "abandoned s d"
  shows "abandoned (handleDebuggerPaused s) d \<and> waiting_on (handleDebuggerPaused s) d = waiting_on s d"
proof -
  have "abandoned (handleDebuggerPaused s) d"
    using assms
  proof (rule abandoned_mono [where xs = "[]"])
    show "deferreds (handleDebuggerPaused s) = deferreds s @ []" by (simp add: handleDebuggerPaused_def)
    fix c k assume "cache_of (handleDebuggerPaused s) c k = Some d"
    then show "cache_of s c k = Some d"
      by (cases c) (simp_all add: handleDebuggerPaused_def cache_of_def)
  qed
  moreover have "waiting_on (handleDebuggerPaused s) d = waiting_on s d"
    by (rule waiting_on_same) (simp add: handleDebuggerPaused_def)
  ultimately show ?thesis by simp
qed

lemma abandoned_step:
  assumes st: "stable s" and ab: "abandoned s d"
  shows "abandoned (step n c s) d \<and> waiting_on (step n c s) d = waiting_on s d"
proof (cases c)
  case (SetWebviewElement w)
  have "abandoned (setWebviewElement w s) d"
    using ab by (rule abandoned_mono [where xs = "[]"]) (simp_all add: setWebviewElement_def cache_of_fields)
  with SetWebviewElement show ?thesis by (simp add: step_def waiting_on_def setWebviewElement_def)
next
  case Cleanup
  have "abandoned (cleanup s) d"
    using ab by (rule abandoned_mono [where xs = "[]"]) (simp_all add: cleanup_def cache_of_fields)
  with Cleanup show ?thesis by (simp add: step_def waiting_on_def cleanup_def)
next
  case (CachedSendCommand x1 x2 x3)
  with abandoned_cachedSendCommand [OF st ab] show ?thesis by (simp add: step_def)
next
  case (GetProperties x)
  with abandoned_cachedSendCommand [OF st ab] show ?thesis by (simp add: step_def getProperties_def)
next
  case (EvaluateWatchExpression x)
  with abandoned_evaluate [OF st ab] show ?thesis by (simp add: step_def evaluateWatchExpression_def)
next
  case (EvaluateConsoleExpression x1 x2)
  with abandoned_evaluate [OF st ab] show ?thesis by (simp add: step_def evaluateConsoleExpression_def)
next
  case (IpcMessage ev)
  let ?s0 = "run_microtasks s"
  from st have st0: "stable ?s0" by (simp add: stable_run_microtasks stable_wf)
  from abandoned_run_microtasks [OF ab] have ab0: "abandoned ?s0 d"
    and w0: "waiting_on ?s0 d = waiting_on s d" by simp_all
  show ?thesis
  proof (cases ev)
    case NonLoaderDebuggerPaused
    from abandoned_handleDebuggerPaused [OF ab0]
    have 1: "abandoned (handleDebuggerPaused ?s0) d"
      and 2: "waiting_on (handleDebuggerPaused ?s0) d = waiting_on ?s0 d" by simp_all
    from abandoned_run_microtasks [OF 1] 2 w0 IpcMessage NonLoaderDebuggerPaused show ?thesis
      by (simp add: step_def on_ipc_message_def handleIpcMessage_def)
  next
    case (ExpressionEvaluationResponse r)
    with IpcMessage abandoned_deliver [OF st0 ab0] w0 show ?thesis
      by (simp add: step_def on_ipc_message_def handleIpcMessage_def
            handleExpressionEvaluationResponse_def)
  next
    case (GetPropertiesResponse r)
    with IpcMessage abandoned_deliver [OF st0 ab0] w0 show ?thesis
      by (simp add: step_def on_ipc_message_def handleIpcMessage_def
            handleGetPropertiesResponse_def)
  qed
next
  case Checkpoint
  with abandoned_run_microtasks [OF ab] show ?thesis by (simp add: step_def)
qed

lemma abandoned_exec:
  "stable s \<Longrightarrow> abandoned s d \<Longrightarrow>
   abandoned (exec n cs s) d \<and> waiting_on (exec n cs s) d = waiting_on s d"
proof (induction cs arbitrary: s)
  case Nil
  then show ?case by simp
next
  case (Cons c cs)
  from abandoned_step [OF Cons.prems, of n c] stable_step [OF Cons.prems(1), of n c]
  have "abandoned (step n c s) d" "waiting_on (step n c s) d = waiting_on s d" "stable (step n c s)"
    by simp_all
  with Cons.IH [of "step n c s"] show ?case by simp
qed

lemma paused_abandons:
  assumes st: "stable s" and e: "expressionsInFlight s k = Some d"
  shows "abandoned (handleDebuggerPaused s) d" and "waiting_on s d \<noteq> []"
proof -
  from st have wfr: "wf_rest s" and q: "quiet s" by (simp_all add: stable_def wf_def)
  from e have e': "cache_of s ExpressionsInFlight k = Some d" by (simp add: cache_of_def)
  from wf_tables_entry [OF wfr q e'] obtain f where
    f: "d < length (deferreds s)" "deferreds s ! d = None" "(d, f) \<in> set (awaiting_deferred s)"
    by blast
  from f(3) show "waiting_on s d \<noteq> []"
    by (force simp add: waiting_on_def filter_empty_conv)
  have "cache_of (handleDebuggerPaused s) c k' \<noteq> Some d" for c k'
  proof (cases c)
    case ExpressionsInFlight
    then show ?thesis by (simp add: handleDebuggerPaused_def cache_of_def)
  next
    case GetPropertiesRequestsInFlight
    show ?thesis
    proof
      assume "cache_of (handleDebuggerPaused s) c k' = Some d"
      with GetPropertiesRequestsInFlight
      have g: "cache_of s GetPropertiesRequestsInFlight k' = Some d"
        by (simp add: handleDebuggerPaused_def cache_of_def)
      from wfr g f(3) have "sf_cache f = GetPropertiesRequestsInFlight"
        by (simp add: wf_rest_def wf_owner_def)
      moreover from wfr e' f(3) have "sf_cache f = ExpressionsInFlight"
        by (simp add: wf_rest_def wf_owner_def)
      ultimately show False by simp
    qed
  qed
  with f(1,2) show "abandoned (handleDebuggerPaused s) d"
    by (simp add: abandoned_def handleDebuggerPaused_def)
qed

subsection \<open>An entry stays until its waiter settles\<close>

text \<open>No method of the bridge but \<open>_handleDebuggerPaused\<close> removes the entry of a pending
  deferred, and that one clears the table of the expressions only.\<close>

lemma entry_kept_mono:
  assumes "entry_kept s c k d" and "deferreds s' = deferreds s @ xs"
    and "cache_of s c k = Some d \<Longrightarrow> cache_of s' c k = Some d"
  shows "entry_kept s' c k d"
  using assms unfolding entry_kept_def
  by (auto simp add: cell_at_def nth_append split: if_splits)

lemma entry_kept_cachedSendCommand:
  assumes st: "stable s" and u: "entry_kept s c k d"
  shows "entry_kept (snd (cachedSendCommand c0 cmd args s)) c k d"
proof (cases "webview s")
  case None
  from u have "entry_kept (s\<lparr>promises := promises s @ [Some (Fulfilled JNull)]\<rparr>) c k d"
    by (rule entry_kept_mono [where xs = "[]"]) (simp_all add: cache_of_fields)
  with None show ?thesis by (simp add: cachedSendCommand_disconnected)
next
  case (Some w)
  show ?thesis
  proof (cases "\<exists>k0 rest. args = JStr k0 # rest")
    case False
    then have "\<And>k0 rest. args \<noteq> JStr k0 # rest" by simp
    note eq = cachedSendCommand_assert [OF Some this]
    from u have "entry_kept (s\<lparr>promises := promises s @ [Some (Rejected AssertionError)]\<rparr>) c k d"
      by (rule entry_kept_mono [where xs = "[]"]) (simp_all add: cache_of_fields)
    then show ?thesis by (simp add: eq)
  next
    case True
    then obtain k0 rest where args: "args = JStr k0 # rest" by blast
    show ?thesis
    proof (cases "cache_of s c0 k0")
      case None
      note n = cachedSendCommand_new [OF Some None, of cmd rest]
      from u n(3) have "entry_kept (snd (cachedSendCommand c0 cmd (JStr k0 # rest) s)) c k d"
      proof (rule entry_kept_mono)
        assume "cache_of s c k = Some d"
        with None have "\<not> (c = c0 \<and> k = k0)" by auto
        with \<open>cache_of s c k = Some d\<close>
        show "cache_of (snd (cachedSendCommand c0 cmd (JStr k0 # rest) s)) c k = Some d"
          by (auto simp add: n(4))
      qed
      with args show ?thesis by simp
    next
      case (Some d0)
      note eq = cachedSendCommand_pending [OF st \<open>webview s = Some w\<close> Some, of cmd rest]
      from u have "entry_kept (s\<lparr>promises := promises s @ [None],
          awaiting_deferred := awaiting_deferred s @ [(d0, SendFrame c0 cmd k0 (length (promises s)))]\<rparr>) c k d"
        by (rule entry_kept_mono [where xs = "[]"]) (simp_all add: cache_of_fields)
      with args show ?thesis by (simp add: eq)
    qed
  qed
qed

lemma entry_kept_await:
  assumes "entry_kept s c k d"
  shows "entry_kept (then_promise a g (s\<lparr>promises := x\<rparr>)) c k d"
  using assms
  by (rule entry_kept_mono [where xs = "[]"])
     (simp_all add: then_promise_def cache_of_fields split: option.splits)

lemma entry_kept_evaluate:
  assumes "stable s" and "entry_kept s c k d"
  shows "entry_kept (snd (evaluateOnSelectedCallFrame e g s)) c k d"
    and "entry_kept (snd (runtimeEvaluate e s)) c k d"
  using assms
  by (simp_all add: evaluateOnSelectedCallFrame_eq runtimeEvaluate_eq Let_def
        entry_kept_await entry_kept_cachedSendCommand)

lemma entry_kept_run_microtasks:
  assumes "quiet s" and "entry_kept s c k d"
  shows "entry_kept (run_microtasks s) c k d"
  using assms(2)
proof (rule entry_kept_mono [where xs = "[]"])
  show "deferreds (run_microtasks s) = deferreds s @ []" by (simp add: run_microtasks_frame)
  assume "cache_of s c k = Some d"
  with assms(1) show "cache_of (run_microtasks s) c k = Some d"
    by (simp add: run_microtasks_cache quiet_def)
qed

lemma entry_kept_deliver:
  assumes st: "stable s" and u: "entry_kept s c k d"
  shows "entry_kept (run_microtasks (handleResponseForPendingRequest c0 resp key s)) c k d"
proof (cases "map_get (cache_of s c0) key")
  case None
  then have "handleResponseForPendingRequest c0 resp key s = s"
    by (simp add: handleResponseForPendingRequest_def)
  with st u show ?thesis by (simp add: entry_kept_run_microtasks stable_def)
next
  case (Some d0)
  then obtain k0 where key: "key = JStr k0" and e: "cache_of s c0 k0 = Some d0"
    by (cases key) (simp_all add: map_get_def)
  note t = deliver_task [OF st e refl refl]
  show ?thesis
  proof (cases "cache_of s c k = Some d")
    case True
    show ?thesis
    proof (cases "c = c0 \<and> k = k0")
      case True
      with \<open>cache_of s c k = Some d\<close> e have "d = d0" by simp
      with t(9) show ?thesis
        unfolding key entry_kept_def by (simp add: t(2) cell_at_def)
    next
      case False
      with \<open>cache_of s c k = Some d\<close> show ?thesis
        unfolding key entry_kept_def by (auto simp add: t(1))
    qed
  next
    case False
    with u have "cell_at (deferreds s) d \<noteq> None" by (simp add: entry_kept_def)
    then have "d < length (deferreds s)" and "deferreds s ! d \<noteq> None"
      by (simp_all add: cell_at_def split: if_splits)
    then have "cell_at ((deferreds s)[d0 := Some (response_completion resp)]) d \<noteq> None"
      by (cases "d = d0") (simp_all add: cell_at_def)
    then show ?thesis
      unfolding key entry_kept_def by (simp add: t(2))
  qed
qed

lemma entry_kept_step:
  assumes st: "stable s" and u: "entry_kept s c k d"
    and np: "c = GetPropertiesRequestsInFlight \<or> x \<noteq> IpcMessage NonLoaderDebuggerPaused"
  shows "entry_kept (step n x s) c k d"
proof (cases x)
  case (SetWebviewElement w)
  from u have "entry_kept (setWebviewElement w s) c k d"
    by (rule entry_kept_mono [where xs = "[]"]) (simp_all add: setWebviewElement_def cache_of_fields)
  with SetWebviewElement show ?thesis by (simp add: step_def)
next
  case Cleanup
  from u have "entry_kept (cleanup s) c k d"
    by (rule entry_kept_mono [where xs = "[]"]) (simp_all add: cleanup_def cache_of_fields)
  with Cleanup show ?thesis by (simp add: step_def)
next
  case (CachedSendCommand x1 x2 x3)
  with st u show ?thesis by (simp add: step_def entry_kept_cachedSendCommand)
next
  case (GetProperties y)
  with st u show ?thesis by (simp add: step_def getProperties_def entry_kept_cachedSendCommand)
next
  case (EvaluateWatchExpression y)
  with st u show ?thesis by (simp add: step_def evaluateWatchExpression_def entry_kept_evaluate)
next
  case (EvaluateConsoleExpression x1 x2)
  with st u show ?thesis by (simp add: step_def evaluateConsoleExpression_def entry_kept_evaluate)
next
  case (IpcMessage ev)
  let ?s0 = "run_microtasks s"
  from st have st0: "stable ?s0" by (simp add: stable_run_microtasks stable_wf)
  from st u have u0: "entry_kept ?s0 c k d" by (simp add: entry_kept_run_microtasks stable_def)
  show ?thesis
  proof (cases ev)
    case NonLoaderDebuggerPaused
    with IpcMessage np have c: "c = GetPropertiesRequestsInFlight" by simp
    from u0 have "entry_kept (handleDebuggerPaused ?s0) c k d"
      by (rule entry_kept_mono [where xs = "[]"])
         (simp_all add: handleDebuggerPaused_def c cache_of_def)
    moreover from st0 have "quiet (handleDebuggerPaused ?s0)"
      by (simp add: stable_def quiet_def handleDebuggerPaused_def)
    ultimately have "entry_kept (run_microtasks (handleDebuggerPaused ?s0)) c k d"
      by (simp add: entry_kept_run_microtasks)
    with IpcMessage NonLoaderDebuggerPaused show ?thesis
      by (simp add: step_def on_ipc_message_def handleIpcMessage_def)
  next
    case (ExpressionEvaluationResponse r)
    with IpcMessage entry_kept_deliver [OF st0 u0] show ?thesis
      by (simp add: step_def on_ipc_message_def handleIpcMessage_def
            handleExpressionEvaluationResponse_def)
  next
    case (GetPropertiesResponse r)
    with IpcMessage entry_kept_deliver [OF st0 u0] show ?thesis
      by (simp add: step_def on_ipc_message_def handleIpcMessage_def
            handleGetPropertiesResponse_def)
  qed
next
  case Checkpoint
  with st u show ?thesis by (simp add: step_def entry_kept_run_microtasks stable_def)
qed

lemma entry_kept_exec:
  "stable s \<Longrightarrow> entry_kept s c k d \<Longrightarrow>
   c = GetPropertiesRequestsInFlight \<or> IpcMessage NonLoaderDebuggerPaused \<notin> set cs \<Longrightarrow>
   entry_kept (exec n cs s) c k d"
proof (induction cs arbitrary: s)
  case Nil
  then show ?case by simp
next
  case (Cons x cs)
  from Cons.prems(3) have np: "c = GetPropertiesRequestsInFlight \<or> x \<noteq> IpcMessage NonLoaderDebuggerPaused"
    and rest: "c = GetPropertiesRequestsInFlight \<or> IpcMessage NonLoaderDebuggerPaused \<notin> set cs"
    by auto
  from Cons.prems(1,2) np have u: "entry_kept (step n x s) c k d" by (rule entry_kept_step)
  from Cons.prems(1) have st: "stable (step n x s)" by (simp add: stable_step)
  from st u rest have "entry_kept (exec n cs (step n x s)) c k d" by (rule Cons.IH)
  then show ?case by simp
qed

section \<open>The claims\<close>

text \<open>
  C1 (de-duplication). In a state reached by any run, with a webview attached and no
  request in flight for the key \<open>k\<close> of the table \<open>c\<close>, let \<open>_cachedSendCommand\<close> be called
  for \<open>k\<close>: it creates one deferred, stores it under \<open>k\<close> and sends one message. Let
  anything happen then, and let a second call for \<open>k\<close> be made, with any command name and
  further arguments, before the first settles: its deferred is still pending. If a
  webview is attached at the second call and, for the table of the expressions, no
  \<open>NonLoaderDebuggerPaused\<close> notification was handled between the two calls, then the
  deferred of the first call is still the entry of \<open>k\<close>; the second call sends nothing,
  creates no deferred and changes no table; both calls are suspended on the same deferred,
  with pending promises. Whatever response is then delivered for \<open>k\<close>, nothing is sent and
  both promises are fulfilled with the same value: the result, or \<open>null\<close> for an error.
  The table of \<open>getProperties\<close> is cleared by no method, so there the property holds
  whatever notification is handled.
\<close>

theorem duplicate_requests_share_one_waiter:
  fixes resp :: response
  assumes "s = exec n cs Bridge"
    and "webview s = Some w"
    and "cache_of s c k = None"
    and "cachedSendCommand c cmd1 (JStr k # args1) s = (p1, s1)"
    and "t = exec n between s1"
    and "c = GetPropertiesRequestsInFlight \<or> IpcMessage NonLoaderDebuggerPaused \<notin> set between"
    and "webview t = Some w'"
    and "cell_at (deferreds t) (length (deferreds s)) = None"
    and "cachedSendCommand c cmd2 (JStr k # args2) t = (p2, s2)"
    and "s3 = run_microtasks (handleResponseForPendingRequest c resp (JStr k) s2)"
  shows "sent s1 = sent s @ [(w, JStr ''command'' # JStr cmd1 # JStr k # args1)]
       \<and> deferreds s1 = deferreds s @ [None]
       \<and> cache_of s1 c k = Some (length (deferreds s))
       \<and> cache_of t c k = Some (length (deferreds s))
       \<and> sent s2 = sent t
       \<and> deferreds s2 = deferreds t
       \<and> cache_of s2 = cache_of t
       \<and> SendFrame c cmd1 k p1 \<in> set (waiting_on s2 (length (deferreds s)))
       \<and> SendFrame c cmd2 k p2 \<in> set (waiting_on s2 (length (deferreds s)))
       \<and> p1 \<noteq> p2
       \<and> cell_at (promises s2) p1 = None
       \<and> cell_at (promises s2) p2 = None
       \<and> sent s3 = sent t
       \<and> cell_at (promises s3) p1 = Some (Fulfilled (send_result (response_completion resp)))
       \<and> cell_at (promises s3) p2 = Some (Fulfilled (send_result (response_completion resp)))"
proof -
  let ?d = "length (deferreds s)"
  let ?f1 = "SendFrame c cmd1 k p1"
  let ?f2 = "SendFrame c cmd2 k p2"
  from assms(1) have st: "stable s" by (simp add: stable_reachable)
  note n = cachedSendCommand_new [OF assms(2,3), of cmd1 args1, unfolded assms(4), simplified]
  from stable_cachedSendCommand [OF st, of c cmd1 "JStr k # args1"] have st1: "stable s1"
    by (simp add: assms(4))
  have "still_waiting s1 ?d ?f1" by (simp add: still_waiting_def n)
  with st1 have sw: "still_waiting t ?d ?f1" unfolding assms(5) by (rule still_waiting_exec)
  have "entry_kept s1 c k ?d" by (simp add: entry_kept_def n)
  with st1 have "entry_kept t c k ?d" using assms(6) unfolding assms(5) by (rule entry_kept_exec)
  with assms(8) have et: "cache_of t c k = Some ?d" by (simp add: entry_kept_def)
  from st1 have stt: "stable t" unfolding assms(5) by (rule stable_exec)
  then have wpt: "wf_promises t" by (simp add: stable_def wf_def)
  from sw assms(8) have in_t: "(?d, ?f1) \<in> set (awaiting_deferred t)" by (simp add: still_waiting_def)
  note r = cachedSendCommand_pending [OF stt assms(7) et, of cmd2 args2, unfolded assms(9), simplified]
  from r have p2: "p2 = length (promises t)"
    and s2: "s2 = t\<lparr>promises := promises t @ [None],
        awaiting_deferred := awaiting_deferred t @ [(?d, ?f2)]\<rparr>"
    by simp_all
  from stable_cachedSendCommand [OF stt, of c cmd2 "JStr k # args2"] have st2: "stable s2"
    by (simp add: assms(9))
  then have wp2: "wf_promises s2" by (simp add: stable_def wf_def)
  have e2: "cache_of s2 c k = Some ?d" by (simp add: s2 cache_of_fields et)
  have w1: "?f1 \<in> set (waiting_on s2 ?d)"
    using in_t by (force simp add: s2 waiting_on_def)
  have w2: "?f2 \<in> set (waiting_on s2 ?d)" by (simp add: s2 waiting_on_def)
  note d = deliver_task [OF st2 e2 refl assms(10)]
  have 1: "sent s1 = sent s @ [(w, JStr ''command'' # JStr cmd1 # JStr k # args1)]" by (simp add: n)
  have 2: "deferreds s1 = deferreds s @ [None]" by (simp add: n)
  have 3: "cache_of s1 c k = Some ?d" by (simp add: n)
  have 4: "sent s2 = sent t" by (simp add: s2)
  have 5: "deferreds s2 = deferreds t" by (simp add: s2)
  have 6: "cache_of s2 = cache_of t" by (simp add: s2 cache_of_fields)
  from in_t have "p1 \<in> set (open_promises t)" by (force simp add: open_promises_def)
  with wpt have "p1 < length (promises t)" by (simp add: wf_promises_def)
  then have 9: "p1 \<noteq> p2" by (simp add: p2)
  have 10: "cell_at (promises s2) p1 = None" using waiting_promise_pending [OF wp2 w1] by simp
  have 11: "cell_at (promises s2) p2 = None" using waiting_promise_pending [OF wp2 w2] by simp
  have 12: "sent s3 = sent t" by (simp add: d 4)
  have 13: "cell_at (promises s3) p1 = Some (Fulfilled (send_result (response_completion resp)))"
    using d(7) [OF w1] by simp
  have 14: "cell_at (promises s3) p2 = Some (Fulfilled (send_result (response_completion resp)))"
    using d(7) [OF w2] by simp
  from 1 2 3 et 4 5 6 w1 w2 9 10 11 12 13 14 show ?thesis by blast
qed

theorem duplicate_requests_share_one_waiter_witness:
  "webview (exec id [SetWebviewElement 0] Bridge) = Some 0
   \<and> cache_of (exec id [SetWebviewElement 0] Bridge) ExpressionsInFlight ''x+1'' = None
   \<and> IpcMessage NonLoaderDebuggerPaused \<notin> set [GetProperties (JStr ''o''), Checkpoint]
   \<and> webview (exec id [GetProperties (JStr ''o''), Checkpoint]
        (snd (cachedSendCommand ExpressionsInFlight ''evaluateOnSelectedCallFrame''
             [JStr ''x+1'', JStr ''console''] (exec id [SetWebviewElement 0] Bridge)))) = Some 0
   \<and> cell_at (deferreds (exec id [GetProperties (JStr ''o''), Checkpoint]
        (snd (cachedSendCommand ExpressionsInFlight ''evaluateOnSelectedCallFrame''
             [JStr ''x+1'', JStr ''console''] (exec id [SetWebviewElement 0] Bridge)))))
        (length (deferreds (exec id [SetWebviewElement 0] Bridge))) = None
   \<and> cache_of (exec id [GetProperties (JStr ''o''), Checkpoint]
        (snd (cachedSendCommand ExpressionsInFlight ''evaluateOnSelectedCallFrame''
             [JStr ''x+1'', JStr ''console''] (exec id [SetWebviewElement 0] Bridge))))
        ExpressionsInFlight ''x+1'' = Some 0
   \<and> sent (snd (cachedSendCommand ExpressionsInFlight ''runtimeEvaluate'' [JStr ''x+1'']
        (exec id [GetProperties (JStr ''o''), Checkpoint]
          (snd (cachedSendCommand ExpressionsInFlight ''evaluateOnSelectedCallFrame''
             [JStr ''x+1'', JStr ''console''] (exec id [SetWebviewElement 0] Bridge))))))
       = [(0, [JStr ''command'', JStr ''evaluateOnSelectedCallFrame'', JStr ''x+1'', JStr ''console'']),
          (0, [JStr ''command'', JStr ''getProperties'', JStr ''o''])]
   \<and> cell_at (promises (run_microtasks (handleResponseForPendingRequest ExpressionsInFlight
          \<lparr>result = JObj [(''type'', JStr ''number''), (''value'', JStr ''2'')], error = JNull,
            expression = JStr ''x+1'', objectId = JUndefined\<rparr> (JStr ''x+1'')
          (snd (cachedSendCommand ExpressionsInFlight ''runtimeEvaluate'' [JStr ''x+1'']
            (exec id [GetProperties (JStr ''o''), Checkpoint]
              (snd (cachedSendCommand ExpressionsInFlight ''evaluateOnSelectedCallFrame''
                 [JStr ''x+1'', JStr ''console''] (exec id [SetWebviewElement 0] Bridge)))))))))
        (fst (cachedSendCommand ExpressionsInFlight ''evaluateOnSelectedCallFrame''
             [JStr ''x+1'', JStr ''console''] (exec id [SetWebviewElement 0] Bridge)))
       = Some (Fulfilled (JObj [(''type'', JStr ''number''), (''value'', JStr ''2'')]))
   \<and> cell_at (promises (run_microtasks (handleResponseForPendingRequest ExpressionsInFlight
          \<lparr>result = JObj [(''type'', JStr ''number''), (''value'', JStr ''2'')], error = JNull,
            expression = JStr ''x+1'', objectId = JUndefined\<rparr> (JStr ''x+1'')
          (snd (cachedSendCommand ExpressionsInFlight ''runtimeEvaluate'' [JStr ''x+1'']
            (exec id [GetProperties (JStr ''o''), Checkpoint]
              (snd (cachedSendCommand ExpressionsInFlight ''evaluateOnSelectedCallFrame''
                 [JStr ''x+1'', JStr ''console''] (exec id [SetWebviewElement 0] Bridge)))))))))
        (fst (cachedSendCommand ExpressionsInFlight ''runtimeEvaluate'' [JStr ''x+1'']
            (exec id [GetProperties (JStr ''o''), Checkpoint]
              (snd (cachedSendCommand ExpressionsInFlight ''evaluateOnSelectedCallFrame''
                 [JStr ''x+1'', JStr ''console''] (exec id [SetWebviewElement 0] Bridge))))))
       = Some (Fulfilled (JObj [(''type'', JStr ''number''), (''value'', JStr ''2'')]))"
proof -
  let ?s = "exec id [SetWebviewElement 0] Bridge"
  let ?r1 = "cachedSendCommand ExpressionsInFlight ''evaluateOnSelectedCallFrame''
               [JStr ''x+1'', JStr ''console''] ?s"
  let ?t = "exec id [GetProperties (JStr ''o''), Checkpoint] (snd ?r1)"
  let ?r2 = "cachedSendCommand ExpressionsInFlight ''runtimeEvaluate'' [JStr ''x+1''] ?t"
  let ?resp = "\<lparr>result = JObj [(''type'', JStr ''number''), (''value'', JStr ''2'')], error = JNull,
            expression = JStr ''x+1'', objectId = JUndefined\<rparr>"
  have a: "webview ?s = Some 0" by (simp add: eval_defs)
  have b: "cache_of ?s ExpressionsInFlight ''x+1'' = None" by (simp add: eval_defs)
  have np: "ExpressionsInFlight = GetPropertiesRequestsInFlight
      \<or> IpcMessage NonLoaderDebuggerPaused \<notin> set [GetProperties (JStr ''o''), Checkpoint]"
    by simp
  have c: "webview ?t = Some 0" by (simp add: eval_defs run_microtasks_Nil)
  have d: "cell_at (deferreds ?t) (length (deferreds ?s)) = None"
    by (simp add: eval_defs run_microtasks_Nil)
  have l: "length (deferreds ?s) = 0" by (simp add: eval_defs)
  have e: "sent ?t = [(0, [JStr ''command'', JStr ''evaluateOnSelectedCallFrame'', JStr ''x+1'', JStr ''console'']),
          (0, [JStr ''command'', JStr ''getProperties'', JStr ''o''])]"
    by (simp add: eval_defs run_microtasks_Nil)
  have f: "send_result (response_completion ?resp)
            = JObj [(''type'', JStr ''number''), (''value'', JStr ''2'')]"
    by (simp add: send_result_def response_completion_def is_nullish_def)
  have e1: "?r1 = (fst ?r1, snd ?r1)" and e2: "?r2 = (fst ?r2, snd ?r2)" by simp_all
  from duplicate_requests_share_one_waiter [OF refl a b e1 refl np c d e2 refl, of ?resp] a b np c d e f l
  show ?thesis by simp
qed

text \<open>
  The condition on the notification is needed. With a webview attached let
  \<open>_cachedSendCommand\<close> be called for the expression \<open>x\<close>, let \<open>NonLoaderDebuggerPaused\<close>
  be handled, which clears the table of the expressions (\<open>_handleDebuggerPaused\<close>), and
  let \<open>_cachedSendCommand\<close> be called for \<open>x\<close> again. At the second call the webview is
  attached and neither the deferred nor the promise of the first call is settled. Yet the
  command is sent twice, a second deferred is created, and each call is suspended on a
  deferred of its own; the response for \<open>x\<close> fulfils the promise of the second call and
  leaves the promise of the first call pending.
\<close>

theorem duplicate_requests_after_pause_counterexample:
  "webview (exec id [IpcMessage NonLoaderDebuggerPaused]
        (snd (cachedSendCommand ExpressionsInFlight ''runtimeEvaluate'' [JStr ''x'']
           (exec id [SetWebviewElement 0] Bridge)))) = Some 0
   \<and> cell_at (deferreds (exec id [IpcMessage NonLoaderDebuggerPaused]
        (snd (cachedSendCommand ExpressionsInFlight ''runtimeEvaluate'' [JStr ''x'']
           (exec id [SetWebviewElement 0] Bridge))))) 0 = None
   \<and> cell_at (promises (exec id [IpcMessage NonLoaderDebuggerPaused]
        (snd (cachedSendCommand ExpressionsInFlight ''runtimeEvaluate'' [JStr ''x'']
           (exec id [SetWebviewElement 0] Bridge)))))
        (fst (cachedSendCommand ExpressionsInFlight ''runtimeEvaluate'' [JStr ''x'']
           (exec id [SetWebviewElement 0] Bridge))) = None
   \<and> sent (snd (cachedSendCommand ExpressionsInFlight ''runtimeEvaluate'' [JStr ''x'']
        (exec id [IpcMessage NonLoaderDebuggerPaused]
          (snd (cachedSendCommand ExpressionsInFlight ''runtimeEvaluate'' [JStr ''x'']
             (exec id [SetWebviewElement 0] Bridge))))))
       = [(0, [JStr ''command'', JStr ''runtimeEvaluate'', JStr ''x'']),
          (0, [JStr ''command'', JStr ''runtimeEvaluate'', JStr ''x''])]
   \<and> deferreds (snd (cachedSendCommand ExpressionsInFlight ''runtimeEvaluate'' [JStr ''x'']
        (exec id [IpcMessage NonLoaderDebuggerPaused]
          (snd (cachedSendCommand ExpressionsInFlight ''runtimeEvaluate'' [JStr ''x'']
             (exec id [SetWebviewElement 0] Bridge))))))
       = [None, None]
   \<and> awaiting_deferred (snd (cachedSendCommand ExpressionsInFlight ''runtimeEvaluate'' [JStr ''x'']
        (exec id [IpcMessage NonLoaderDebuggerPaused]
          (snd (cachedSendCommand ExpressionsInFlight ''runtimeEvaluate'' [JStr ''x'']
             (exec id [SetWebviewElement 0] Bridge))))))
       = [(0, SendFrame ExpressionsInFlight ''runtimeEvaluate'' ''x'' 0),
          (1, SendFrame ExpressionsInFlight ''runtimeEvaluate'' ''x'' 1)]
   \<and> promises (run_microtasks (handleResponseForPendingRequest ExpressionsInFlight
          \<lparr>result = JStr ''2'', error = JNull, expression = JStr ''x'', objectId = JUndefined\<rparr>
          (JStr ''x'')
          (snd (cachedSendCommand ExpressionsInFlight ''runtimeEvaluate'' [JStr ''x'']
            (exec id [IpcMessage NonLoaderDebuggerPaused]
              (snd (cachedSendCommand ExpressionsInFlight ''runtimeEvaluate'' [JStr ''x'']
                 (exec id [SetWebviewElement 0] Bridge))))))))
       = [None, Some (Fulfilled (JStr ''2''))]"
  by (simp add: eval_defs on_ipc_message_def handleIpcMessage_def handleDebuggerPaused_def
        run_microtasks_Nil run_microtasks_Cons handleResponseForPendingRequest_def map_get_def
        is_nullish_def settle_deferred_def Deferred_resolve_def Deferred_reject_def
        run_task_def cachedSendCommand_resume_def settle_promise_def
        task_promise_def task_outcome_def task_effect_def send_result_def)

text \<open>
  C2 (single delivery resolves once). In a state reached by any run, let the table
  have a waiter for the key. The handler \<open>_handleResponseForPendingRequest\<close> resolves the
  waiter with the result; the entry is deleted by the continuation of
  \<open>_cachedSendCommand\<close>, which runs as a job at the end of the handler's task. After that
  task the table has no entry for the key and the waiter is fulfilled with the result.
  A second response for the same key changes nothing, whether it comes after the task
  (no entry is found) or in the same task before the jobs have run (the deferred is
  settled already).
\<close>

theorem single_delivery_resolves_once:
  fixes resp resp2 :: response
  assumes "s = exec n cs Bridge"
    and "cache_of s c k = Some d"
    and "is_nullish (error resp)"
    and "s' = run_microtasks (handleResponseForPendingRequest c resp (JStr k) s)"
  shows "cache_of s' c k = None
       \<and> cell_at (deferreds s') d = Some (Fulfilled (result resp))
       \<and> handleResponseForPendingRequest c resp2 (JStr k) s' = s'
       \<and> handleResponseForPendingRequest c resp2 (JStr k) (handleResponseForPendingRequest c resp (JStr k) s)
           = handleResponseForPendingRequest c resp (JStr k) s"
proof -
  from assms(1) have st: "stable s" by (simp add: stable_reachable)
  note t = deliver_task [OF st assms(2) refl assms(4)]
  have 1: "cache_of s' c k = None" by (simp add: t(1))
  have 2: "cell_at (deferreds s') d = Some (Fulfilled (result resp))"
    using t(9) assms(3) by (simp add: t(2) cell_at_def response_completion_def)
  have 3: "handleResponseForPendingRequest c resp2 (JStr k) s' = s'"
    using 1 by (simp add: handleResponseForPendingRequest_def map_get_def)
  from 1 2 3 handleResponse_twice show ?thesis by simp
qed

theorem single_delivery_resolves_once_witness:
  "cache_of (exec id [SetWebviewElement 0, GetProperties (JStr ''o'')] Bridge)
      GetPropertiesRequestsInFlight ''o'' = Some 0
   \<and> is_nullish (error \<lparr>result = JNum 1, error = JNull, expression = JUndefined, objectId = JStr ''o''\<rparr>)
   \<and> cache_of (run_microtasks (handleResponseForPendingRequest GetPropertiesRequestsInFlight
         \<lparr>result = JNum 1, error = JNull, expression = JUndefined, objectId = JStr ''o''\<rparr> (JStr ''o'')
         (exec id [SetWebviewElement 0, GetProperties (JStr ''o'')] Bridge)))
       GetPropertiesRequestsInFlight ''o'' = None
   \<and> cell_at (deferreds (run_microtasks (handleResponseForPendingRequest GetPropertiesRequestsInFlight
         \<lparr>result = JNum 1, error = JNull, expression = JUndefined, objectId = JStr ''o''\<rparr> (JStr ''o'')
         (exec id [SetWebviewElement 0, GetProperties (JStr ''o'')] Bridge)))) 0
       = Some (Fulfilled (JNum 1))"
proof -
  let ?s = "exec id [SetWebviewElement 0, GetProperties (JStr ''o'')] Bridge"
  let ?r = "\<lparr>result = JNum 1, error = JNull, expression = JUndefined, objectId = JStr ''o''\<rparr>"
  have a: "cache_of ?s GetPropertiesRequestsInFlight ''o'' = Some 0" by (simp add: eval_defs)
  have b: "is_nullish (error ?r)" by (simp add: is_nullish_def)
  from single_delivery_resolves_once [OF refl a b refl] a b show ?thesis by simp
qed

text \<open>
  C3 (disconnected short-circuit). When \<open>_webview\<close> is \<open>null\<close>, \<open>_cachedSendCommand\<close>
  returns, for every table, command and argument list, a promise that is already
  fulfilled with \<open>null\<close>; nothing is sent, no deferred is created, no table changes and
  no frame is suspended: the state differs only by the new promise.
\<close>

theorem disconnected_send_resolves_null:
  assumes "webview s = None"
  shows "(case cachedSendCommand cache command args s of (p, s') \<Rightarrow>
           cell_at (promises s') p = Some (Fulfilled JNull)
         \<and> sent s' = sent s
         \<and> cache_of s' = cache_of s
         \<and> deferreds s' = deferreds s
         \<and> awaiting_deferred s' = awaiting_deferred s
         \<and> s' = s\<lparr>promises := promises s @ [Some (Fulfilled JNull)]\<rparr>)"
  using assms by (simp add: cachedSendCommand_disconnected cell_at_def cache_of_fields)

theorem disconnected_send_resolves_null_witness:
  "webview (cleanup (snd (getProperties (JStr ''o'') (setWebviewElement 0 Bridge)))) = None
   \<and> (case cachedSendCommand GetPropertiesRequestsInFlight ''getProperties'' [JNum 7]
              (cleanup (snd (getProperties (JStr ''o'') (setWebviewElement 0 Bridge)))) of (p, s') \<Rightarrow>
           cell_at (promises s') p = Some (Fulfilled JNull)
         \<and> sent s' = sent (cleanup (snd (getProperties (JStr ''o'') (setWebviewElement 0 Bridge))))
         \<and> cache_of s' = cache_of (cleanup (snd (getProperties (JStr ''o'') (setWebviewElement 0 Bridge))))
         \<and> deferreds s' = deferreds (cleanup (snd (getProperties (JStr ''o'') (setWebviewElement 0 Bridge))))
         \<and> awaiting_deferred s' = awaiting_deferred (cleanup (snd (getProperties (JStr ''o'') (setWebviewElement 0 Bridge))))
         \<and> s' = (cleanup (snd (getProperties (JStr ''o'') (setWebviewElement 0 Bridge))))
                   \<lparr>promises := promises (cleanup (snd (getProperties (JStr ''o'') (setWebviewElement 0 Bridge))))
                        @ [Some (Fulfilled JNull)]\<rparr>)"
proof -
  have h: "webview (cleanup (snd (getProperties (JStr ''o'') (setWebviewElement 0 Bridge)))) = None"
    by (simp add: cleanup_def)
  from h disconnected_send_resolves_null
      [OF h, of GetPropertiesRequestsInFlight "''getProperties''" "[JNum 7]"]
  show ?thesis by (rule conjI)
qed



text \<open>
  C5 (unmatched delivery is inert). When the table has no entry for the key of a
  response, \<open>_handleResponseForPendingRequest\<close> returns at once: the state, and with it
  both tables and every deferred and promise, is what it was. The handler has no
  statement that can throw on a response object.
\<close>

theorem unmatched_delivery_is_inert:
  assumes "map_get (cache_of s pending) key = None"
  shows "handleResponseForPendingRequest pending resp key s = s"
  using assms by (simp add: handleResponseForPendingRequest_def)

theorem unmatched_delivery_is_inert_witness:
  "map_get (cache_of (exec id [SetWebviewElement 0, GetProperties (JStr ''o'')] Bridge)
       GetPropertiesRequestsInFlight) (JStr ''other'') = None
   \<and> handleResponseForPendingRequest GetPropertiesRequestsInFlight
        \<lparr>result = JNum 1, error = JStr ''boom'', expression = JUndefined, objectId = JStr ''other''\<rparr>
        (JStr ''other'') (exec id [SetWebviewElement 0, GetProperties (JStr ''o'')] Bridge)
      = exec id [SetWebviewElement 0, GetProperties (JStr ''o'')] Bridge"
proof -
  have h: "map_get (cache_of (exec id [SetWebviewElement 0, GetProperties (JStr ''o'')] Bridge)
       GetPropertiesRequestsInFlight) (JStr ''other'') = None"
    by (simp add: eval_defs map_get_def)
  from h unmatched_delivery_is_inert [OF h] show ?thesis by (rule conjI)
qed

text \<open>
  C6 (table invariant). In every state reached by a run without a pause notification
  (any interleaving of method calls, responses, cleanups and task ends), the deferreds
  that suspended calls of \<open>_cachedSendCommand\<close> for a key of a table are waiting on are
  exactly the entry of that key: none when the key has no entry, one otherwise. In such
  a state a call for a key that has an entry, with a webview attached, is suspended on
  the deferred of the entry; it creates no deferred, sends nothing and changes no table.
\<close>

theorem at_most_one_waiter_per_key:
  assumes "s = exec n cs Bridge"
    and "IpcMessage NonLoaderDebuggerPaused \<notin> set cs"
  shows "set (pending_waiters s c k) = set_option (cache_of s c k)
       \<and> card (set (pending_waiters s c k)) \<le> 1
       \<and> (\<forall>w d. webview s = Some w \<and> cache_of s c k = Some d \<longrightarrow>
            (case cachedSendCommand c cmd (JStr k # rest) s of (p, s') \<Rightarrow>
                deferreds s' = deferreds s
              \<and> sent s' = sent s
              \<and> cache_of s' = cache_of s
              \<and> awaiting_deferred s' = awaiting_deferred s @ [(d, SendFrame c cmd k p)]
              \<and> pending_waiters s' c k = pending_waiters s c k @ [d]))"
proof -
  from assms(1) have st: "stable s" by (simp add: stable_reachable)
  then have wfr: "wf_rest s" and q: "quiet s" by (simp_all add: stable_def wf_def)
  have si: "single s"
    unfolding assms(1) using stable_Bridge single_Bridge assms(2) by (rule single_exec)
  have mem: "x \<in> set (pending_waiters s c k) \<longleftrightarrow>
      (\<exists>f. (x, f) \<in> set (awaiting_deferred s) \<and> sf_cache f = c \<and> sf_value f = k)" for x
    by (force simp add: pending_waiters_def)
  have sub: "cache_of s c k = Some x" if "x \<in> set (pending_waiters s c k)" for x
  proof -
    from that mem obtain f where f: "(x, f) \<in> set (awaiting_deferred s)"
      "sf_cache f = c" "sf_value f = k" by blast
    from si f(1) have "cache_of s (sf_cache f) (sf_value f) = Some x"
      unfolding single_def by force
    with f show ?thesis by simp
  qed
  have 1: "set (pending_waiters s c k) = set_option (cache_of s c k)"
  proof (cases "cache_of s c k")
    case None
    with sub have "set (pending_waiters s c k) = {}" by fastforce
    with None show ?thesis by simp
  next
    case (Some d)
    from wf_tables_entry [OF wfr q Some] mem [of d] have "d \<in> set (pending_waiters s c k)"
      by blast
    moreover from sub Some have "\<And>x. x \<in> set (pending_waiters s c k) \<Longrightarrow> x = d"
      by fastforce
    ultimately have "set (pending_waiters s c k) = {d}" by blast
    with Some show ?thesis by simp
  qed
  have 2: "card (set (pending_waiters s c k)) \<le> 1"
  proof (cases "cache_of s c k")
    case None
    with 1 show ?thesis by simp
  next
    case (Some d)
    with 1 show ?thesis by simp
  qed
  have 3: "\<forall>w d. webview s = Some w \<and> cache_of s c k = Some d \<longrightarrow>
            (case cachedSendCommand c cmd (JStr k # rest) s of (p, s') \<Rightarrow>
                deferreds s' = deferreds s
              \<and> sent s' = sent s
              \<and> cache_of s' = cache_of s
              \<and> awaiting_deferred s' = awaiting_deferred s @ [(d, SendFrame c cmd k p)]
              \<and> pending_waiters s' c k = pending_waiters s c k @ [d])"
  proof (intro allI impI, elim conjE)
    fix w d assume a: "webview s = Some w" "cache_of s c k = Some d"
    note eq = cachedSendCommand_pending [OF st a, of cmd rest]
    show "case cachedSendCommand c cmd (JStr k # rest) s of (p, s') \<Rightarrow>
                deferreds s' = deferreds s
              \<and> sent s' = sent s
              \<and> cache_of s' = cache_of s
              \<and> awaiting_deferred s' = awaiting_deferred s @ [(d, SendFrame c cmd k p)]
              \<and> pending_waiters s' c k = pending_waiters s c k @ [d]"
      by (simp add: eq cache_of_fields pending_waiters_def)
  qed
  from 1 2 3 show ?thesis by blast
qed

theorem at_most_one_waiter_per_key_witness:
  "IpcMessage NonLoaderDebuggerPaused \<notin> set [SetWebviewElement 0, GetProperties (JStr ''o''),
       GetProperties (JStr ''o'')]
   \<and> pending_waiters (exec id [SetWebviewElement 0, GetProperties (JStr ''o''),
       GetProperties (JStr ''o'')] Bridge) GetPropertiesRequestsInFlight ''o'' = [0, 0]
   \<and> set (pending_waiters (exec id [SetWebviewElement 0, GetProperties (JStr ''o''),
       GetProperties (JStr ''o'')] Bridge) GetPropertiesRequestsInFlight ''o'')
      = set_option (cache_of (exec id [SetWebviewElement 0, GetProperties (JStr ''o''),
       GetProperties (JStr ''o'')] Bridge) GetPropertiesRequestsInFlight ''o'')
   \<and> card (set (pending_waiters (exec id [SetWebviewElement 0, GetProperties (JStr ''o''),
       GetProperties (JStr ''o'')] Bridge) GetPropertiesRequestsInFlight ''o'')) \<le> 1"
proof -
  let ?cs = "[SetWebviewElement 0, GetProperties (JStr ''o''), GetProperties (JStr ''o'')]"
  have a: "IpcMessage NonLoaderDebuggerPaused \<notin> set ?cs" by simp
  have b: "pending_waiters (exec id ?cs Bridge) GetPropertiesRequestsInFlight ''o'' = [0, 0]"
    by (simp add: eval_defs pending_waiters_def)
  from at_most_one_waiter_per_key [OF refl a, where c = GetPropertiesRequestsInFlight and k = "''o''"] a b
  show ?thesis by blast
qed

text \<open>
  C7 (isolation across tables). In a state reached by any run, let the key \<open>k\<close> be
  pending in both tables. The task of a response for \<open>k\<close> in one table (the handler,
  then the jobs it queued) removes that table's entry and settles its waiter; the other
  table is unchanged as a whole, its waiter for \<open>k\<close> is a different deferred, still
  pending, with the same calls suspended on it, and their promises are still pending.
\<close>

theorem isolation_across_tables:
  fixes resp :: response
  assumes "s = exec n cs Bridge"
    and "c' \<noteq> c"
    and "cache_of s c k = Some d"
    and "cache_of s c' k = Some d'"
    and "s' = run_microtasks (handleResponseForPendingRequest c resp (JStr k) s)"
  shows "cache_of s' c' = cache_of s c'
       \<and> d' \<noteq> d
       \<and> cell_at (deferreds s') d' = None
       \<and> waiting_on s' d' = waiting_on s d'
       \<and> waiting_on s d' \<noteq> []
       \<and> (\<forall>f \<in> set (waiting_on s d'). cell_at (promises s') (sf_promise f) = None)
       \<and> cache_of s' c k = None
       \<and> cell_at (deferreds s') d = Some (response_completion resp)"
proof -
  from assms(1) have st: "stable s" by (simp add: stable_reachable)
  then have wfr: "wf_rest s" and q: "quiet s" by (simp_all add: stable_def wf_def)
  note t = deliver_task [OF st assms(3) refl assms(5)]
  from wf_tables_entry [OF wfr q assms(4)] obtain f' where
    f': "d' < length (deferreds s)" "deferreds s ! d' = None"
        "(d', f') \<in> set (awaiting_deferred s)" "sf_cache f' = c'" by blast
  have ne: "d' \<noteq> d"
  proof
    assume "d' = d"
    with f'(3) assms(3) wfr have "sf_cache f' = c" by (simp add: wf_rest_def wf_owner_def)
    with f'(4) assms(2) show False by simp
  qed
  have 1: "cache_of s' c' = cache_of s c'"
    using assms(2) by (intro ext) (simp add: t(1))
  have 3: "cell_at (deferreds s') d' = None"
    using ne f'(1,2) by (simp add: t(2) cell_at_def)
  have 4: "waiting_on s' d' = waiting_on s d'"
    using ne by (simp add: waiting_on_def t(3) waiting_on_filter)
  have 5: "waiting_on s d' \<noteq> []"
    using f'(3) by (force simp add: waiting_on_def filter_empty_conv)
  have "wf s'"
    unfolding assms(5) by (intro wf_run_microtasks wf_handleResponseForPendingRequest st)
  then have "wf_promises s'" by (simp add: wf_def)
  then have 6: "\<forall>f \<in> set (waiting_on s d'). cell_at (promises s') (sf_promise f) = None"
    using waiting_promise_pending [of s' _ d'] by (simp add: 4)
  have 7: "cache_of s' c k = None" by (simp add: t(1))
  have 8: "cell_at (deferreds s') d = Some (response_completion resp)"
    using t(9) by (simp add: t(2) cell_at_def)
  from 1 ne 3 4 5 6 7 8 show ?thesis by blast
qed

theorem isolation_across_tables_witness:
  "cache_of (exec id [SetWebviewElement 0, EvaluateWatchExpression ''x'', GetProperties (JStr ''x'')] Bridge)
      ExpressionsInFlight ''x'' = Some 0
   \<and> cache_of (exec id [SetWebviewElement 0, EvaluateWatchExpression ''x'', GetProperties (JStr ''x'')] Bridge)
      GetPropertiesRequestsInFlight ''x'' = Some 1
   \<and> cache_of (run_microtasks (handleResponseForPendingRequest ExpressionsInFlight
        \<lparr>result = JNum 2, error = JNull, expression = JStr ''x'', objectId = JUndefined\<rparr> (JStr ''x'')
        (exec id [SetWebviewElement 0, EvaluateWatchExpression ''x'', GetProperties (JStr ''x'')] Bridge)))
      GetPropertiesRequestsInFlight ''x'' = Some 1
   \<and> cell_at (deferreds (run_microtasks (handleResponseForPendingRequest ExpressionsInFlight
        \<lparr>result = JNum 2, error = JNull, expression = JStr ''x'', objectId = JUndefined\<rparr> (JStr ''x'')
        (exec id [SetWebviewElement 0, EvaluateWatchExpression ''x'', GetProperties (JStr ''x'')] Bridge)))) 1 = None"
proof -
  let ?s = "exec id [SetWebviewElement 0, EvaluateWatchExpression ''x'', GetProperties (JStr ''x'')] Bridge"
  have a: "cache_of ?s ExpressionsInFlight ''x'' = Some 0" by (simp add: eval_defs)
  have b: "cache_of ?s GetPropertiesRequestsInFlight ''x'' = Some 1" by (simp add: eval_defs)
  have c: "GetPropertiesRequestsInFlight \<noteq> ExpressionsInFlight" by simp
  from isolation_across_tables [OF refl c a b refl] a b show ?thesis by simp
qed

text \<open>
  C8 (cleanup does not fail pending requests). \<open>cleanup\<close> sets \<open>_webview\<close> to \<open>null\<close>
  and leaves both tables, every deferred, every suspended call and the job queue as
  they were: no entry is removed and no waiter is resolved or rejected.
\<close>

theorem cleanup_keeps_pending_requests:
  "webview (cleanup s) = None
   \<and> expressionsInFlight (cleanup s) = expressionsInFlight s
   \<and> getPropertiesRequestsInFlight (cleanup s) = getPropertiesRequestsInFlight s
   \<and> deferreds (cleanup s) = deferreds s
   \<and> awaiting_deferred (cleanup s) = awaiting_deferred s
   \<and> promises (cleanup s) = promises s
   \<and> awaiting_promise (cleanup s) = awaiting_promise s
   \<and> microtasks (cleanup s) = microtasks s"
  by (simp add: cleanup_def)

text \<open>
  C9 (user-visible fallback). Let any of the evaluation functions be called for the
  expression \<open>e\<close> in a state reached by any run. Without a webview, the call's promise is
  fulfilled, at the end of the task, with the object
  \<open>{type: 'text', value: 'Failed to evaluate: ' + e}\<close>. With a webview, if the response for
  \<open>e\<close> carries an error (the waiter is rejected and \<open>_cachedSendCommand\<close> yields \<open>null\<close>) or
  a \<open>null\<close> or \<open>undefined\<close> result, the call's promise is fulfilled with the same object, not
  with \<open>null\<close> and not rejected; any other result is passed on as it is.
\<close>

theorem failed_evaluation_gives_fallback:
  fixes resp :: response
  assumes "s = exec n cs Bridge"
    and "evaluate \<in> {evaluateOnSelectedCallFrame e g, runtimeEvaluate e,
                      evaluateWatchExpression e, evaluateConsoleExpression mode e}"
    and "evaluate s = (q, s1)"
  shows "(webview s = None \<longrightarrow>
            cell_at (promises (run_microtasks s1)) q
              = Some (Fulfilled (JObj [(''type'', JStr ''text''),
                                       (''value'', JStr (''Failed to evaluate: '' @ e))])))
       \<and> (webview s \<noteq> None \<and> (\<not> is_nullish (error resp) \<or> is_nullish (result resp)) \<longrightarrow>
            cell_at (promises (run_microtasks
                (handleResponseForPendingRequest ExpressionsInFlight resp (JStr e) s1))) q
              = Some (Fulfilled (JObj [(''type'', JStr ''text''),
                                       (''value'', JStr (''Failed to evaluate: '' @ e))])))
       \<and> (webview s \<noteq> None \<and> is_nullish (error resp) \<and> \<not> is_nullish (result resp) \<longrightarrow>
            cell_at (promises (run_microtasks
                (handleResponseForPendingRequest ExpressionsInFlight resp (JStr e) s1))) q
              = Some (Fulfilled (result resp)))"
proof -
  from assms(1) have st: "stable s" by (simp add: stable_reachable)
  from assms(2) have "\<exists>cmd rest. evaluate = evaluate_with cmd rest e"
    by (cases "mode = ''paused''") (auto simp add: evaluate_with_eqs)
  then obtain cmd rest where ev: "evaluate = evaluate_with cmd rest e" by blast
  with assms(3) have r: "evaluate_with cmd rest e s = (q, s1)" by simp
  have 1: "cell_at (promises (run_microtasks s1)) q = Some (Fulfilled (failed_to_evaluate e))"
    if "webview s = None"
    using st that r by (rule evaluate_with_disconnected)
  have c: "cell_at (promises (run_microtasks
                (handleResponseForPendingRequest ExpressionsInFlight resp (JStr e) s1))) q
              = Some (task_outcome (EvalTask (EvalFrame e q)
                   (Fulfilled (send_result (response_completion resp)))))"
    if "webview s \<noteq> None"
  proof -
    from that obtain w where "webview s = Some w" by blast
    with st show ?thesis using r by (rule evaluate_with_connected)
  qed
  have 2: "cell_at (promises (run_microtasks
                (handleResponseForPendingRequest ExpressionsInFlight resp (JStr e) s1))) q
              = Some (Fulfilled (failed_to_evaluate e))"
    if "webview s \<noteq> None" and "\<not> is_nullish (error resp) \<or> is_nullish (result resp)"
  proof -
    from that(2) have "is_nullish (send_result (response_completion resp))"
      by (auto simp add: send_result_def response_completion_def is_nullish_def)
    with c [OF that(1)] show ?thesis by (simp add: task_outcome_def)
  qed
  have 3: "cell_at (promises (run_microtasks
                (handleResponseForPendingRequest ExpressionsInFlight resp (JStr e) s1))) q
              = Some (Fulfilled (result resp))"
    if "webview s \<noteq> None" and "is_nullish (error resp)" and "\<not> is_nullish (result resp)"
    using c [OF that(1)] that(2,3)
    by (simp add: task_outcome_def send_result_def response_completion_def)
  from 1 2 3 show ?thesis by (simp add: failed_to_evaluate_def)
qed

theorem failed_evaluation_gives_fallback_witness:
  "cell_at (promises (run_microtasks (snd (evaluateWatchExpression ''a.b'' Bridge))))
       (fst (evaluateWatchExpression ''a.b'' Bridge))
     = Some (Fulfilled (JObj [(''type'', JStr ''text''), (''value'', JStr ''Failed to evaluate: a.b'')]))
   \<and> cell_at (promises (run_microtasks (handleResponseForPendingRequest ExpressionsInFlight
          \<lparr>result = JUndefined, error = JStr ''boom'', expression = JStr ''a.b'', objectId = JUndefined\<rparr>
          (JStr ''a.b'')
          (snd (evaluateConsoleExpression ''running'' ''a.b'' (exec id [SetWebviewElement 0] Bridge))))))
       (fst (evaluateConsoleExpression ''running'' ''a.b'' (exec id [SetWebviewElement 0] Bridge)))
     = Some (Fulfilled (JObj [(''type'', JStr ''text''), (''value'', JStr ''Failed to evaluate: a.b'')]))"
proof -
  let ?resp = "\<lparr>result = JUndefined, error = JStr ''boom'', expression = JStr ''a.b'', objectId = JUndefined\<rparr>"
  have a: "webview (exec id [] Bridge) = None" by (simp add: Bridge_def)
  have b: "webview (exec id [SetWebviewElement 0] Bridge) \<noteq> None"
    by (simp add: step_def setWebviewElement_def)
  have c: "\<not> is_nullish (error ?resp) \<or> is_nullish (result ?resp)" by (simp add: is_nullish_def)
  have m1: "evaluateWatchExpression ''a.b'' \<in> {evaluateOnSelectedCallFrame ''a.b'' g, runtimeEvaluate ''a.b'',
                      evaluateWatchExpression ''a.b'', evaluateConsoleExpression mode ''a.b''}" for g mode
    by simp
  have m2: "evaluateConsoleExpression ''running'' ''a.b'' \<in> {evaluateOnSelectedCallFrame ''a.b'' g, runtimeEvaluate ''a.b'',
                      evaluateWatchExpression ''a.b'', evaluateConsoleExpression ''running'' ''a.b''}" for g
    by simp
  have p1: "evaluateWatchExpression ''a.b'' (exec id [] Bridge)
      = (fst (evaluateWatchExpression ''a.b'' Bridge), snd (evaluateWatchExpression ''a.b'' Bridge))"
    by simp
  have p2: "evaluateConsoleExpression ''running'' ''a.b'' (exec id [SetWebviewElement 0] Bridge)
      = (fst (evaluateConsoleExpression ''running'' ''a.b'' (exec id [SetWebviewElement 0] Bridge)),
         snd (evaluateConsoleExpression ''running'' ''a.b'' (exec id [SetWebviewElement 0] Bridge)))"
    by simp
  from failed_evaluation_gives_fallback [OF refl m1 p1, THEN conjunct1] a
       failed_evaluation_gives_fallback [OF refl m2 p2, THEN conjunct2, THEN conjunct1, of ?resp] b c
  show ?thesis by simp
qed

text \<open>
  C10 (a pause drops the expressions in flight). Handling the notification
  \<open>NonLoaderDebuggerPaused\<close> in any state empties \<open>_expressionsInFlight\<close> and tells the model
  that the debugger is paused; it settles no deferred, resumes no call and queues no job,
  and \<open>_getPropertiesRequestsInFlight\<close> is unchanged. The calls that waited on a dropped
  waiter are abandoned: in a state reached by any run, if the expression \<open>k\<close> had the
  waiter \<open>d\<close>, then after the notification, and after anything that happens later, \<open>d\<close> is
  still pending, the same calls are suspended on it and their promises are pending.
\<close>

theorem debugger_paused_drops_expressions:
  "expressionsInFlight (handleIpcMessage n' NonLoaderDebuggerPaused u) = Map.empty
       \<and> getPropertiesRequestsInFlight (handleIpcMessage n' NonLoaderDebuggerPaused u)
           = getPropertiesRequestsInFlight u
       \<and> deferreds (handleIpcMessage n' NonLoaderDebuggerPaused u) = deferreds u
       \<and> awaiting_deferred (handleIpcMessage n' NonLoaderDebuggerPaused u) = awaiting_deferred u
       \<and> promises (handleIpcMessage n' NonLoaderDebuggerPaused u) = promises u
       \<and> awaiting_promise (handleIpcMessage n' NonLoaderDebuggerPaused u) = awaiting_promise u
       \<and> microtasks (handleIpcMessage n' NonLoaderDebuggerPaused u) = microtasks u
       \<and> actions (handleIpcMessage n' NonLoaderDebuggerPaused u) = actions u @ [SetDebuggerMode PAUSED]
       \<and> (s = exec n cs Bridge \<and> expressionsInFlight s k = Some d
            \<and> s' = exec n (IpcMessage NonLoaderDebuggerPaused # later) s \<longrightarrow>
             waiting_on s d \<noteq> []
           \<and> cell_at (deferreds s') d = None
           \<and> waiting_on s' d = waiting_on s d
           \<and> (\<forall>f \<in> set (waiting_on s d). cell_at (promises s') (sf_promise f) = None)
           \<and> (\<forall>c k'. cache_of s' c k' \<noteq> Some d))"
proof -
  have frame: "expressionsInFlight (handleIpcMessage n' NonLoaderDebuggerPaused u) = Map.empty
       \<and> getPropertiesRequestsInFlight (handleIpcMessage n' NonLoaderDebuggerPaused u)
           = getPropertiesRequestsInFlight u
       \<and> deferreds (handleIpcMessage n' NonLoaderDebuggerPaused u) = deferreds u
       \<and> awaiting_deferred (handleIpcMessage n' NonLoaderDebuggerPaused u) = awaiting_deferred u
       \<and> promises (handleIpcMessage n' NonLoaderDebuggerPaused u) = promises u
       \<and> awaiting_promise (handleIpcMessage n' NonLoaderDebuggerPaused u) = awaiting_promise u
       \<and> microtasks (handleIpcMessage n' NonLoaderDebuggerPaused u) = microtasks u
       \<and> actions (handleIpcMessage n' NonLoaderDebuggerPaused u) = actions u @ [SetDebuggerMode PAUSED]"
    by (simp add: handleIpcMessage_def handleDebuggerPaused_def)
  have later: "waiting_on s d \<noteq> []
           \<and> cell_at (deferreds s') d = None
           \<and> waiting_on s' d = waiting_on s d
           \<and> (\<forall>f \<in> set (waiting_on s d). cell_at (promises s') (sf_promise f) = None)
           \<and> (\<forall>c k'. cache_of s' c k' \<noteq> Some d)"
    if a1: "s = exec n cs Bridge" and a2: "expressionsInFlight s k = Some d"
      and a3: "s' = exec n (IpcMessage NonLoaderDebuggerPaused # later) s"
  proof -
    let ?s0 = "run_microtasks s"
    let ?s1 = "run_microtasks (handleDebuggerPaused ?s0)"
    from a1 have st: "stable s" by (simp add: stable_reachable)
    then have st0: "stable ?s0" by (simp add: stable_run_microtasks stable_wf)
    from st have q: "quiet s" by (simp add: stable_def)
    have w0: "waiting_on ?s0 d = waiting_on s d"
      by (rule waiting_on_same) (simp add: run_microtasks_frame)
    have "cache_of ?s0 ExpressionsInFlight k = cache_of s ExpressionsInFlight k"
      using q by (simp add: run_microtasks_cache quiet_def)
    with a2 have e0: "expressionsInFlight ?s0 k = Some d" by (simp add: cache_of_def)
    note p = paused_abandons [OF st0 e0]
    from abandoned_handleDebuggerPaused [of ?s0 d] have w1: "waiting_on (handleDebuggerPaused ?s0) d = waiting_on ?s0 d"
      by (simp add: waiting_on_def handleDebuggerPaused_def)
    from abandoned_run_microtasks [OF p(1)] have ab1: "abandoned ?s1 d"
      and w2: "waiting_on ?s1 d = waiting_on (handleDebuggerPaused ?s0) d" by simp_all
    have st1: "stable ?s1"
      using stable_on_ipc_message [OF st, of n NonLoaderDebuggerPaused]
      by (simp add: on_ipc_message_def handleIpcMessage_def)
    have s': "s' = exec n later ?s1"
      by (simp add: a3 step_def on_ipc_message_def handleIpcMessage_def)
    from abandoned_exec [OF st1 ab1, of n later] have ab': "abandoned s' d"
      and w3: "waiting_on s' d = waiting_on ?s1 d" by (simp_all add: s')
    have st': "stable s'" unfolding s' using st1 by (rule stable_exec)
    then have wp': "wf_promises s'" by (simp add: stable_def wf_def)
    have 1: "waiting_on s d \<noteq> []" using p(2) w0 by simp
    have 2: "cell_at (deferreds s') d = None" using ab' by (simp add: abandoned_def cell_at_def)
    have 3: "waiting_on s' d = waiting_on s d" by (simp add: w3 w2 w1 w0)
    have 4: "\<forall>f \<in> set (waiting_on s d). cell_at (promises s') (sf_promise f) = None"
      using waiting_promise_pending [OF wp', of _ d] by (simp add: 3)
    have 5: "\<forall>c k'. cache_of s' c k' \<noteq> Some d" using ab' by (simp add: abandoned_def)
    from 1 2 3 4 5 show ?thesis by blast
  qed
  from later have "s = exec n cs Bridge \<and> expressionsInFlight s k = Some d
            \<and> s' = exec n (IpcMessage NonLoaderDebuggerPaused # later) s \<longrightarrow>
             waiting_on s d \<noteq> []
           \<and> cell_at (deferreds s') d = None
           \<and> waiting_on s' d = waiting_on s d
           \<and> (\<forall>f \<in> set (waiting_on s d). cell_at (promises s') (sf_promise f) = None)
           \<and> (\<forall>c k'. cache_of s' c k' \<noteq> Some d)"
    by (intro impI, elim conjE) (rule later)
  with frame show ?thesis by (elim conjE, intro conjI) assumption+
qed

theorem debugger_paused_drops_expressions_witness:
  "expressionsInFlight (exec id [SetWebviewElement 0, EvaluateWatchExpression ''x''] Bridge) ''x'' = Some 0
   \<and> waiting_on (exec id [SetWebviewElement 0, EvaluateWatchExpression ''x''] Bridge) 0
       = [SendFrame ExpressionsInFlight ''evaluateOnSelectedCallFrame'' ''x'' 0]
   \<and> cell_at (deferreds (exec id [IpcMessage NonLoaderDebuggerPaused,
          IpcMessage (ExpressionEvaluationResponse
            \<lparr>result = JNum 1, error = JNull, expression = JStr ''x'', objectId = JUndefined\<rparr>)]
          (exec id [SetWebviewElement 0, EvaluateWatchExpression ''x''] Bridge))) 0 = None
   \<and> cell_at (promises (exec id [IpcMessage NonLoaderDebuggerPaused,
          IpcMessage (ExpressionEvaluationResponse
            \<lparr>result = JNum 1, error = JNull, expression = JStr ''x'', objectId = JUndefined\<rparr>)]
          (exec id [SetWebviewElement 0, EvaluateWatchExpression ''x''] Bridge))) 0 = None"
proof -
  let ?s = "exec id [SetWebviewElement 0, EvaluateWatchExpression ''x''] Bridge"
  let ?later = "[IpcMessage (ExpressionEvaluationResponse
            \<lparr>result = JNum 1, error = JNull, expression = JStr ''x'', objectId = JUndefined\<rparr>)]"
  have a: "expressionsInFlight ?s ''x'' = Some 0" by (simp add: eval_defs)
  have b: "waiting_on ?s 0 = [SendFrame ExpressionsInFlight ''evaluateOnSelectedCallFrame'' ''x'' 0]"
    by (simp add: eval_defs waiting_on_def)
  from debugger_paused_drops_expressions [where s = ?s and n = id and later = ?later and k = "''x''" and d = 0
      and cs = "[SetWebviewElement 0, EvaluateWatchExpression ''x'']"
      and s' = "exec id (IpcMessage NonLoaderDebuggerPaused # ?later) ?s",
      THEN conjunct2, THEN conjunct2, THEN conjunct2, THEN conjunct2, THEN conjunct2,
      THEN conjunct2, THEN conjunct2, THEN conjunct2] a b
  show ?thesis by simp
qed

end
